theory Spec2Isabelle
  imports Main "HOL-Library.Sublist"
begin

section \<open>Python values used by the orchestration core\<close>

text \<open>
  A string is a list of characters, a character a code point below 256.
  \<open>str.split(",")\<close> and \<open>str.strip()\<close> are the two string operations that
  \<open>GWASPipeline.run\<close> applies to the selection tokens.  \<open>strip\<close> removes the characters
  for which \<open>str.isspace\<close> holds: below 256 these are the codes 9 to 13, 28 to 32, 0x85
  and 0xA0.
\<close>

fun split_on :: "char \<Rightarrow> string \<Rightarrow> string list" where
  "split_on c [] = [[]]"
| "split_on c (x # xs) =
     (if x = c then [] # split_on c xs
      else (case split_on c xs of
              [] \<Rightarrow> [[x]]
            | p # ps \<Rightarrow> (x # p) # ps))"

definition isspace :: "char \<Rightarrow> bool" where
  "isspace c =
     (let n = (of_char c :: nat)
      in (9 \<le> n \<and> n \<le> 13) \<or> (28 \<le> n \<and> n \<le> 32) \<or> n = 0x85 \<or> n = 0xA0)"

definition strip :: "string \<Rightarrow> string" where
  "strip s = rev (dropWhile isspace (rev (dropWhile isspace s)))"

fun join :: "string \<Rightarrow> string list \<Rightarrow> string" where
  "join sep [] = []"
| "join sep [x] = x"
| "join sep (x # y # ys) = x @ sep @ join sep (y # ys)"

text \<open>
  Exceptions are values.  \<open>exn\<close> covers the instances of Python's \<open>Exception\<close> that the
  core raises itself (\<open>ConfigError\<close>, \<open>KeyError\<close>) and any other \<open>Exception\<close> instance
  coming from a step handler or from the file system, given by its class name and its
  \<open>str()\<close>.  Signals deriving from \<open>BaseException\<close> only (\<open>KeyboardInterrupt\<close>,
  \<open>SystemExit\<close>) are not errors of a handler and are outside the model.
\<close>

datatype exn =
    ConfigError string
  | KeyError string
  | PyException string string

datatype outcome = Returned | Raised exn

text \<open>The YAML document behind \<open>PipelineConfig.data\<close>; a mapping keeps its items in order.\<close>

datatype yaml =
    YNull
  | YBool bool
  | YInt int
  | YStr string
  | YList "yaml list"
  | YMap "(string \<times> yaml) list"

fun isinstance_dict :: "yaml \<Rightarrow> bool" where
  "isinstance_dict (YMap _) = True"
| "isinstance_dict _ = False"

fun truthy :: "yaml \<Rightarrow> bool" where
  "truthy YNull = False"
| "truthy (YBool b) = b"
| "truthy (YInt n) = (n \<noteq> 0)"
| "truthy (YStr s) = (s \<noteq> [])"
| "truthy (YList xs) = (xs \<noteq> [])"
| "truthy (YMap kvs) = (kvs \<noteq> [])"

text \<open>
  \<open>d.get(k)\<close> on a mapping: \<open>None\<close> of the model is an absent key.  A mapping is its
  item list; a key is bound once, as in a Python dict.
\<close>

definition dict_get :: "(string \<times> yaml) list \<Rightarrow> string \<Rightarrow> yaml option" where
  "dict_get kvs k = map_of kvs k"

section \<open>config.py\<close>

record config =
  cfg_data :: "(string \<times> yaml) list"
  root :: string

text \<open>
  \<open>PipelineConfig.get(*keys, default)\<close>: walk the key path; the result is \<open>None\<close> (the
  caller's default) as soon as a node is not a mapping or lacks the key.
\<close>

fun get_node :: "yaml \<Rightarrow> string list \<Rightarrow> yaml option" where
  "get_node node [] = Some node"
| "get_node node (key # keys) =
     (case node of
        YMap kvs \<Rightarrow> (case map_of kvs key of
                       Some child \<Rightarrow> get_node child keys
                     | None \<Rightarrow> None)
      | _ \<Rightarrow> None)"

definition get :: "config \<Rightarrow> string list \<Rightarrow> yaml \<Rightarrow> yaml" where
  "get cfg keys dflt = (case get_node (YMap (cfg_data cfg)) keys of Some v \<Rightarrow> v | None \<Rightarrow> dflt)"

text \<open>
  \<open>resolve_path(value)\<close> with \<open>create_parent=False\<close>.  \<open>None\<close> and \<open>""\<close> give \<open>None\<close>; a
  string gives a path: itself when absolute, otherwise \<open>(root / path).resolve()\<close>, which
  depends on the file system and is the parameter \<open>resolve_under\<close>; any other value makes
  \<open>Path(value)\<close> raise \<open>TypeError\<close>.
\<close>

definition is_absolute :: "string \<Rightarrow> bool" where
  "is_absolute p = (case p of [] \<Rightarrow> False | c # _ \<Rightarrow> c = CHR ''/'')"

definition resolve_path :: "(string \<Rightarrow> string \<Rightarrow> string) \<Rightarrow> config \<Rightarrow> yaml \<Rightarrow> exn + string option" where
  "resolve_path resolve_under cfg v =
     (case v of
        YNull \<Rightarrow> Inr None
      | YStr s \<Rightarrow>
          (if s = [] then Inr None
           else if is_absolute s then Inr (Some s)
           else Inr (Some (resolve_under (root cfg) s)))
      | _ \<Rightarrow> Inl (PyException ''TypeError'' ''expected str, bytes or os.PathLike object''))"

definition path_of :: "(string \<Rightarrow> string \<Rightarrow> string) \<Rightarrow> config \<Rightarrow> string list \<Rightarrow> exn + string option" where
  "path_of resolve_under cfg keys = resolve_path resolve_under cfg (get cfg keys YNull)"

section \<open>steps.py: input-path resolution\<close>

definition resolve_input_path ::
  "(string \<Rightarrow> string \<Rightarrow> string) \<Rightarrow> config \<Rightarrow> (string \<times> yaml) list \<Rightarrow> string \<Rightarrow> string list option
     \<Rightarrow> exn + string" where
  "resolve_input_path resolve_under cfg step_cfg key fallback_keys =
     (let raw = (case dict_get step_cfg key of Some v \<Rightarrow> v | None \<Rightarrow> YNull);
          missing = Inl (ConfigError (''Missing input path for key '' @ [CHR 0x27] @ key @ [CHR 0x27]
                                       @ '' and no fallback provided''))
      in if truthy raw then
           (case resolve_path resolve_under cfg raw of
              Inl e \<Rightarrow> Inl e
            | Inr None \<Rightarrow> Inl (ConfigError (''Input path for '' @ key @ '' is not set''))
            | Inr (Some p) \<Rightarrow> Inr p)
         else
           (case fallback_keys of
              None \<Rightarrow> missing
            | Some fks \<Rightarrow>
                if fks = [] then missing
                else (case path_of resolve_under cfg fks of
                        Inl e \<Rightarrow> Inl e
                      | Inr (Some fallback) \<Rightarrow> Inr fallback
                      | Inr None \<Rightarrow> missing)))"

section \<open>pipeline.py: step registry and run order\<close>

definition STEP_SEQUENCE :: "(string \<times> string) list" where
  "STEP_SEQUENCE =
    [(''step01_filter_variants'', ''filter_variants''),
     (''step02_filter_mapped_snps'', ''filter_mapped_snps''),
     (''step03_filter_individuals'', ''filter_individuals''),
     (''step04_transpose_matrix'', ''transpose_genotypes''),
     (''step05_calculate_ibs'', ''ibs_similarity''),
     (''step06_convert_to_dissimilarity'', ''ibs_dissimilarity''),
     (''step07_extract_labels'', ''extract_labels''),
     (''step08_create_plink_map'', ''create_plink_map''),
     (''step09_csv_to_tped'', ''transpose_to_tped''),
     (''step10_ld_decay_plot'', ''ld_decay_plot''),
     (''step11_plink_pruning'', ''plink_pruning''),
     (''step12_extract_pruned_subset'', ''extract_pruned_subset''),
     (''step13_pcoa'', ''pcoa''),
     (''step14_convert_to_structure'', ''convert_to_structure''),
     (''step15_fix_pruned_ped'', ''fix_pruned_ped''),
     (''step16_trait_split'', ''trait_split''),
     (''step17_trait_adjust'', ''trait_adjust'')]"

definition STEP_ORDER :: "string list" where
  "STEP_ORDER = map fst STEP_SEQUENCE"

text \<open>
  \<open>STEP_ALIASES\<close>: the comprehension \<open>{alias: primary}\<close>, then \<open>update\<close> with
  \<open>{primary: primary}\<close>; in a Python dict a later binding of a key replaces an earlier one.
\<close>

definition STEP_ALIASES :: "string \<Rightarrow> string option" where
  "STEP_ALIASES =
     map_of (rev (map (\<lambda>(primary, alias). (alias, primary)) STEP_SEQUENCE))
       ++ map_of (rev (map (\<lambda>(primary, _). (primary, primary)) STEP_SEQUENCE))"

text \<open>The keys of \<open>STEP_FUNCTIONS\<close> (steps.py); what a handler does is a parameter of a run.\<close>

definition STEP_FUNCTIONS :: "string list" where
  "STEP_FUNCTIONS =
    [''step01_filter_variants'', ''step02_filter_mapped_snps'', ''step03_filter_individuals'',
     ''step04_transpose_matrix'', ''step05_calculate_ibs'', ''step06_convert_to_dissimilarity'',
     ''step07_extract_labels'', ''step08_create_plink_map'', ''step09_csv_to_tped'',
     ''step10_ld_decay_plot'', ''step11_plink_pruning'', ''step12_extract_pruned_subset'',
     ''step13_pcoa'', ''step14_convert_to_structure'', ''step15_fix_pruned_ped'',
     ''step16_trait_split'', ''step17_trait_adjust'', ''step04_transpose_pruned'',
     ''step05_calculate_ibs_pruned'', ''step06_convert_to_dissimilarity_pruned'',
     ''step07_extract_labels_pruned'',
     ''filter_variants'', ''filter_mapped_snps'', ''filter_individuals'', ''transpose_genotypes'',
     ''ibs_similarity'', ''ibs_dissimilarity'', ''extract_labels'', ''create_plink_map'',
     ''transpose_to_tped'', ''plink_pruning'', ''extract_pruned_subset'', ''convert_to_structure'',
     ''pcoa'', ''fix_pruned_ped'', ''trait_split'', ''trait_adjust'', ''ld_decay_plot'']"

text \<open>\<open>configured_steps\<close>: the loop over \<open>STEP_SEQUENCE\<close> appends to \<open>configured\<close>.\<close>

fun configured_loop :: "(string \<times> yaml) list \<Rightarrow> (string \<times> string) list \<Rightarrow> string list \<Rightarrow> string list" where
  "configured_loop steps_cfg [] configured = configured"
| "configured_loop steps_cfg ((primary, legacy) # rest) configured =
     (let cfg = dict_get steps_cfg primary;
          cfg = (if \<not> (case cfg of Some v \<Rightarrow> isinstance_dict v | None \<Rightarrow> False) \<and> legacy \<noteq> []
                 then dict_get steps_cfg legacy else cfg)
      in if (case cfg of Some v \<Rightarrow> isinstance_dict v | None \<Rightarrow> False)
         then configured_loop steps_cfg rest (configured @ [primary])
         else configured_loop steps_cfg rest configured)"

definition configured_steps :: "config \<Rightarrow> exn + string list" where
  "configured_steps cfg =
     (case get cfg [''steps''] (YMap []) of
        YMap steps_cfg \<Rightarrow> Inr (configured_loop steps_cfg STEP_SEQUENCE [])
      | _ \<Rightarrow> Inl (ConfigError ''steps must be a mapping in the YAML configuration''))"

text \<open>The selection part of \<open>run\<close> (taken when \<open>selected_steps\<close> is not \<open>None\<close>).\<close>

fun selected_list_of :: "string option list \<Rightarrow> string list" where
  "selected_list_of [] = []"
| "selected_list_of (None # tokens) = selected_list_of tokens"
| "selected_list_of (Some token # tokens) =
     filter (\<lambda>part. part \<noteq> []) (map strip (split_on CHR '','' token)) @ selected_list_of tokens"

definition resolve_alias :: "string \<Rightarrow> string" where
  "resolve_alias step = (case STEP_ALIASES step of Some primary \<Rightarrow> primary | None \<Rightarrow> step)"

fun classify :: "string list \<Rightarrow> string list \<Rightarrow> string list \<Rightarrow> string list \<times> string list" where
  "classify [] normalised unknown = (normalised, unknown)"
| "classify (step # rest) normalised unknown =
     (let resolved = resolve_alias step
      in if resolved \<in> set STEP_FUNCTIONS
         then classify rest (normalised @ [resolved]) unknown
         else classify rest normalised (unknown @ [step]))"

fun dedupe :: "string list \<Rightarrow> string set \<Rightarrow> string list \<Rightarrow> string list" where
  "dedupe [] seen run_order = run_order"
| "dedupe (step # rest) seen run_order =
     (if step \<in> seen then dedupe rest seen run_order
      else dedupe rest (insert step seen) (run_order @ [step]))"

definition resolve_selection :: "string option list \<Rightarrow> exn + string list" where
  "resolve_selection selected_steps =
     (let selected_list = selected_list_of selected_steps;
          (normalised, unknown) = classify selected_list [] []
      in if unknown \<noteq> [] then Inl (ConfigError (''Unknown step(s): '' @ join '', '' unknown))
         else Inr (dedupe normalised {} []))"

section \<open>progress.py\<close>

type_synonym datetime = int
type_synonym path = "string \<times> string"

text \<open>
  A \<open>datetime\<close> is a count of microseconds; a \<open>path\<close> is its parent directory and its
  name.  An entry of \<open>data["steps"]\<close> and the \<open>data\<close> dict itself are records whose optional
  keys are options.  \<open>e_duration_seconds\<close> holds the difference \<open>finished - start_time\<close>
  that the source rounds to two decimals of a second.
\<close>

record step_entry =
  e_step :: string
  e_status :: string
  e_noted_at :: "string option"
  e_started_at :: "string option"
  e_finished_at :: "string option"
  e_duration_seconds :: "int option"
  e_message :: "string option"

record session_data =
  d_session :: string
  d_dry_run :: bool
  d_started_at :: string
  d_status :: string
  d_run_order :: "string list"
  d_steps :: "step_entry list"
  d_finished_at :: "string option"
  d_message :: "string option"
  d_last_completed_step :: "string option"

record latest_payload =
  l_session :: string
  l_progress_file :: string
  l_status :: string
  l_started_at :: string
  l_finished_at :: "string option"
  l_last_completed_step :: "string option"

datatype document = SessionDoc session_data | LatestDoc latest_payload

text \<open>
  What lies outside the program is a parameter of a run: the clock (the n-th call of
  \<open>datetime.now()\<close>), the renderings \<open>isoformat\<close>, \<open>strftime\<close>, \<open>json.dumps\<close> and
  \<open>repr\<close>, the fate of the n-th call of \<open>_write\<close> (it succeeds, or it raises after some
  of its file-system steps), and what the handler of a step does when called (it returns, or
  raises).  The files a handler reads and writes and the lines it logs are its own
  business and not part of the world below; the world keeps the list of the handlers
  called (\<open>invoked\<close>), the files of the run-history directory, and the log.  Closing the
  file handler of the log flushes it and may raise (\<open>log_close_result\<close>); \<open>mkdir\<close>, the
  opening of the log file and the emission of a log record (whose errors the logging
  library handles itself) are taken to succeed.
\<close>

datatype write_outcome = WriteOk | WriteFails nat exn

record env =
  clock :: "nat \<Rightarrow> datetime"
  isoformat :: "datetime \<Rightarrow> string"
  strftime :: "datetime \<Rightarrow> string"
  json_dumps :: "document \<Rightarrow> string"
  py_repr :: "string \<Rightarrow> string"
  write_result :: "nat \<Rightarrow> write_outcome"
  handler :: "string \<Rightarrow> exn option"
  log_close_result :: "exn option"

record world =
  files :: "path \<Rightarrow> string option"
  ticks :: nat
  writes :: nat
  invoked :: "string list"
  log_files :: "path \<Rightarrow> (string \<times> string) list option"
  log_handlers :: "path list"
  console :: "(string \<times> string) list"

record progress_log =
  path :: path
  latest_path :: path
  session :: string
  dry_run :: bool
  started_at :: datetime
  active_starts :: "(string \<times> datetime) list"
  data :: session_data

definition now :: "env \<Rightarrow> world \<Rightarrow> datetime \<times> world" where
  "now env w = (clock env (ticks w), w\<lparr>ticks := Suc (ticks w)\<rparr>)"

definition fmt :: "env \<Rightarrow> datetime \<Rightarrow> string" where
  "fmt env dt = isoformat env dt"

definition str_exn :: "env \<Rightarrow> exn \<Rightarrow> string" where
  "str_exn env e = (case e of ConfigError m \<Rightarrow> m | KeyError m \<Rightarrow> py_repr env m | PyException _ m \<Rightarrow> m)"

subsection \<open>The file system under \<open>_write\<close>\<close>

text \<open>
  \<open>Path.write_text\<close> opens the file for writing (it is empty then) and the text arrives
  piece by piece: another process may see any prefix of it.  \<open>Path.replace\<close> renames in one
  step.  \<open>fs_trace\<close> lists the states of the file system after each such step.
\<close>

datatype fs_op = WriteText path string | Replace path path

fun fs_steps :: "(path \<Rightarrow> string option) \<Rightarrow> fs_op \<Rightarrow> (path \<Rightarrow> string option) list" where
  "fs_steps fs (WriteText p s) = map (\<lambda>n. fs(p \<mapsto> take n s)) [0..<Suc (length s)]"
| "fs_steps fs (Replace src dst) = [(fs(src := None))(dst := fs src)]"

fun fs_trace :: "(path \<Rightarrow> string option) \<Rightarrow> fs_op list \<Rightarrow> (path \<Rightarrow> string option) list" where
  "fs_trace fs [] = []"
| "fs_trace fs (x # xs) = fs_steps fs x @ fs_trace (last (fs # fs_steps fs x)) xs"

definition latest_payload_of :: "progress_log \<Rightarrow> latest_payload" where
  "latest_payload_of pl =
     \<lparr>l_session = session pl,
      l_progress_file = snd (path pl),
      l_status = d_status (data pl),
      l_started_at = d_started_at (data pl),
      l_finished_at = d_finished_at (data pl),
      l_last_completed_step = d_last_completed_step (data pl)\<rparr>"

definition tmp_of :: "path \<Rightarrow> path" where
  "tmp_of p = (fst p, snd p @ ''.tmp'')"

definition write_ops :: "env \<Rightarrow> progress_log \<Rightarrow> fs_op list" where
  "write_ops env pl =
     [WriteText (tmp_of (path pl)) (json_dumps env (SessionDoc (data pl))),
      Replace (tmp_of (path pl)) (path pl),
      WriteText (tmp_of (latest_path pl)) (json_dumps env (LatestDoc (latest_payload_of pl))),
      Replace (tmp_of (latest_path pl)) (latest_path pl)]"

text \<open>
  The states one call of \<open>_write\<close> goes through: all of them when it succeeds; when it
  raises, the first \<open>n\<close> of them, never the last rename.
\<close>

definition write_states :: "env \<Rightarrow> progress_log \<Rightarrow> world \<Rightarrow> (path \<Rightarrow> string option) list" where
  "write_states env pl w =
     (let tr = fs_trace (files w) (write_ops env pl)
      in case write_result env (writes w) of
           WriteOk \<Rightarrow> tr
         | WriteFails n e \<Rightarrow> take n (butlast tr))"

definition write_progress :: "env \<Rightarrow> progress_log \<Rightarrow> world \<Rightarrow> exn option \<times> world" where
  "write_progress env pl w =
     ((case write_result env (writes w) of WriteOk \<Rightarrow> None | WriteFails n e \<Rightarrow> Some e),
      w\<lparr>files := last (files w # write_states env pl w), writes := Suc (writes w)\<rparr>)"

subsection \<open>The lifecycle methods\<close>

definition ProgressLog ::
  "env \<Rightarrow> path \<Rightarrow> string \<Rightarrow> bool \<Rightarrow> string list \<Rightarrow> datetime option \<Rightarrow> world
     \<Rightarrow> exn option \<times> progress_log \<times> world" where
  "ProgressLog env p sess dry order started w =
     (let (st, w1) = (case started of Some t \<Rightarrow> (t, w) | None \<Rightarrow> now env w);
          pl = \<lparr>path = p, latest_path = (fst p, ''latest.json''), session = sess, dry_run = dry,
                started_at = st, active_starts = [],
                data = \<lparr>d_session = sess, d_dry_run = dry, d_started_at = fmt env st,
                         d_status = ''running'', d_run_order = order, d_steps = [],
                         d_finished_at = None, d_message = None,
                         d_last_completed_step = None\<rparr>\<rparr>;
          (r, w2) = write_progress env pl w1
      in (r, pl, w2))"

definition plan_step :: "env \<Rightarrow> string \<Rightarrow> progress_log \<Rightarrow> world \<Rightarrow> exn option \<times> progress_log \<times> world" where
  "plan_step env s pl w =
     (let (stamp, w1) = now env w;
          entry = \<lparr>e_step = s, e_status = ''planned'', e_noted_at = Some (fmt env stamp),
                   e_started_at = None, e_finished_at = None, e_duration_seconds = None,
                   e_message = None\<rparr>;
          pl1 = pl\<lparr>data := (data pl)\<lparr>d_steps := d_steps (data pl) @ [entry]\<rparr>\<rparr>;
          (r, w2) = write_progress env pl1 w1
      in (r, pl1, w2))"

text \<open>\<open>_active_starts\<close> is a dict: items in insertion order, \<open>popitem\<close> takes the last.\<close>

fun dict_set :: "(string \<times> 'v) list \<Rightarrow> string \<Rightarrow> 'v \<Rightarrow> (string \<times> 'v) list" where
  "dict_set [] k v = [(k, v)]"
| "dict_set ((k', v') # kvs) k v = (if k' = k then (k, v) # kvs else (k', v') # dict_set kvs k v)"

definition dict_pop :: "(string \<times> 'v) list \<Rightarrow> string \<Rightarrow> 'v option \<times> (string \<times> 'v) list" where
  "dict_pop kvs k = (map_of kvs k, filter (\<lambda>kv. fst kv \<noteq> k) kvs)"

definition start_step :: "env \<Rightarrow> string \<Rightarrow> progress_log \<Rightarrow> world \<Rightarrow> exn option \<times> progress_log \<times> world" where
  "start_step env s pl w =
     (let (started, w1) = now env w;
          entry = \<lparr>e_step = s, e_status = ''running'', e_noted_at = None,
                   e_started_at = Some (fmt env started), e_finished_at = None,
                   e_duration_seconds = None, e_message = None\<rparr>;
          pl1 = pl\<lparr>active_starts := dict_set (active_starts pl) s started,
                   data := (data pl)\<lparr>d_steps := d_steps (data pl) @ [entry]\<rparr>\<rparr>;
          (r, w2) = write_progress env pl1 w1
      in (r, pl1, w2))"

fun find_first :: "('a \<Rightarrow> bool) \<Rightarrow> 'a list \<Rightarrow> nat option" where
  "find_first P [] = None"
| "find_first P (x # xs) = (if P x then Some 0 else map_option Suc (find_first P xs))"

definition entry_matches :: "string \<Rightarrow> step_entry \<Rightarrow> bool" where
  "entry_matches s entry =
     (e_step entry = s \<and> e_status entry \<in> {''running'', ''completed'', ''failed''})"

text \<open>
  \<open>_find_step_entry\<close> walks \<open>reversed(steps)\<close> and returns the first match; the entry is
  mutated in place by its callers, so the model returns its index in \<open>steps\<close>.
\<close>

definition find_step_entry :: "env \<Rightarrow> string \<Rightarrow> step_entry list \<Rightarrow> exn + nat" where
  "find_step_entry env s es =
     (case find_first (entry_matches s) (rev es) of
        Some j \<Rightarrow> Inr (length es - 1 - j)
      | None \<Rightarrow> Inl (KeyError (''No step entry recorded for '' @ py_repr env s)))"

definition is_set :: "string option \<Rightarrow> bool" where
  "is_set m = (case m of None \<Rightarrow> False | Some s \<Rightarrow> s \<noteq> [])"

definition complete_step ::
  "env \<Rightarrow> string \<Rightarrow> string \<Rightarrow> string option \<Rightarrow> progress_log \<Rightarrow> world
     \<Rightarrow> exn option \<times> progress_log \<times> world" where
  "complete_step env s st msg pl w =
     (let (finished, w1) = now env w
      in case find_step_entry env s (d_steps (data pl)) of
           Inl e \<Rightarrow> (Some e, pl, w1)
         | Inr i \<Rightarrow>
             (let entry = d_steps (data pl) ! i;
                  entry = entry\<lparr>e_status := st, e_finished_at := Some (fmt env finished)\<rparr>;
                  (start_time, act) = dict_pop (active_starts pl) s;
                  entry = (case start_time of
                             Some t \<Rightarrow> entry\<lparr>e_duration_seconds := Some (finished - t)\<rparr>
                           | None \<Rightarrow> entry);
                  entry = (if is_set msg then entry\<lparr>e_message := msg\<rparr> else entry);
                  d = (data pl)\<lparr>d_steps := (d_steps (data pl))[i := entry]\<rparr>;
                  d = (if st = ''completed'' then d\<lparr>d_last_completed_step := Some s\<rparr> else d);
                  pl1 = pl\<lparr>active_starts := act, data := d\<rparr>;
                  (r, w2) = write_progress env pl1 w1
              in (r, pl1, w2)))"

definition fail_step ::
  "env \<Rightarrow> string \<Rightarrow> string option \<Rightarrow> progress_log \<Rightarrow> world \<Rightarrow> exn option \<times> progress_log \<times> world" where
  "fail_step env s msg pl w = complete_step env s ''failed'' msg pl w"

text \<open>
  The \<open>while self._active_starts\<close> loop of \<open>finish\<close>.  \<open>pending\<close> is the dict in the order
  \<open>popitem\<close> empties it (last inserted first); a \<open>KeyError\<close> leaves the loop with the
  popped item gone.
\<close>

fun fail_pending ::
  "env \<Rightarrow> datetime \<Rightarrow> string option \<Rightarrow> (string \<times> datetime) list \<Rightarrow> step_entry list
     \<Rightarrow> exn option \<times> (string \<times> datetime) list \<times> step_entry list" where
  "fail_pending env finished msg [] es = (None, [], es)"
| "fail_pending env finished msg ((pending_step, started) # pending) es =
     (case find_step_entry env pending_step es of
        Inl e \<Rightarrow> (Some e, pending, es)
      | Inr i \<Rightarrow>
          (let pending_entry = es ! i;
               pending_entry = pending_entry\<lparr>e_status := ''failed'',
                                 e_finished_at := Some (fmt env finished),
                                 e_duration_seconds := Some (finished - started)\<rparr>;
               pending_entry = (if is_set msg \<and> e_message pending_entry = None
                                then pending_entry\<lparr>e_message := msg\<rparr> else pending_entry)
           in fail_pending env finished msg pending (es[i := pending_entry])))"

definition finish ::
  "env \<Rightarrow> string \<Rightarrow> string option \<Rightarrow> progress_log \<Rightarrow> world \<Rightarrow> exn option \<times> progress_log \<times> world" where
  "finish env st msg pl w =
     (let (finished, w1) = now env w;
          d = (data pl)\<lparr>d_status := st, d_finished_at := Some (fmt env finished)\<rparr>;
          d = (if is_set msg then d\<lparr>d_message := msg\<rparr> else d);
          (r, pending, es) = fail_pending env finished msg (rev (active_starts pl)) (d_steps d);
          pl1 = pl\<lparr>active_starts := rev pending, data := d\<lparr>d_steps := es\<rparr>\<rparr>
      in case r of
           Some e \<Rightarrow> (Some e, pl1, w1)
         | None \<Rightarrow> (let (r', w2) = write_progress env pl1 w1 in (r', pl1, w2)))"

text \<open>A caller may use the lifecycle methods in any order and go on after one raised.\<close>

datatype pl_op =
    PlanStep string
  | StartStep string
  | CompleteStep string string "string option"
  | FailStep string "string option"
  | Finish string "string option"

fun apply_op :: "env \<Rightarrow> pl_op \<Rightarrow> progress_log \<Rightarrow> world \<Rightarrow> exn option \<times> progress_log \<times> world" where
  "apply_op env (PlanStep s) pl w = plan_step env s pl w"
| "apply_op env (StartStep s) pl w = start_step env s pl w"
| "apply_op env (CompleteStep s st msg) pl w = complete_step env s st msg pl w"
| "apply_op env (FailStep s msg) pl w = fail_step env s msg pl w"
| "apply_op env (Finish st msg) pl w = finish env st msg pl w"

fun apply_ops :: "env \<Rightarrow> pl_op list \<Rightarrow> progress_log \<Rightarrow> world \<Rightarrow> progress_log \<times> world" where
  "apply_ops env [] pl w = (pl, w)"
| "apply_ops env (x # xs) pl w = (case apply_op env x pl w of (_, pl', w') \<Rightarrow> apply_ops env xs pl' w')"

fun started_steps :: "pl_op list \<Rightarrow> string list" where
  "started_steps [] = []"
| "started_steps (StartStep s # xs) = s # started_steps xs"
| "started_steps (_ # xs) = started_steps xs"

fun completes_as_running :: "pl_op \<Rightarrow> bool" where
  "completes_as_running (CompleteStep s st msg) = (st = ''running'')"
| "completes_as_running _ = False"

section \<open>pipeline.py: \<open>GWASPipeline.run\<close>\<close>

text \<open>
  The logger writes every record to the console handler and to the file handlers attached
  to it; a record is its level and its message.
\<close>

definition log_msg :: "string \<Rightarrow> string \<Rightarrow> world \<Rightarrow> world" where
  "log_msg level msg w =
     w\<lparr>console := console w @ [(level, msg)],
       log_files := (\<lambda>p. if p \<in> set (log_handlers w)
                          then map_option (\<lambda>records. records @ [(level, msg)]) (log_files w p)
                          else log_files w p)\<rparr>"

definition add_handler :: "path \<Rightarrow> world \<Rightarrow> world" where
  "add_handler p w =
     w\<lparr>log_files := (log_files w)(p := Some (case log_files w p of None \<Rightarrow> [] | Some records \<Rightarrow> records)),
       log_handlers := log_handlers w @ [p]\<rparr>"

definition remove_handler :: "path \<Rightarrow> world \<Rightarrow> world" where
  "remove_handler p w = w\<lparr>log_handlers := removeAll p (log_handlers w)\<rparr>"

fun plan_loop :: "env \<Rightarrow> string list \<Rightarrow> progress_log \<Rightarrow> world \<Rightarrow> exn option \<times> progress_log \<times> world" where
  "plan_loop env [] progress w = (None, progress, w)"
| "plan_loop env (s # rest) progress w =
     (case plan_step env s progress w of
        (Some e, progress', w') \<Rightarrow> (Some e, progress', w')
      | (None, progress', w') \<Rightarrow> plan_loop env rest progress' (log_msg ''INFO'' (''[dry-run] '' @ s) w'))"

text \<open>
  The live loop; \<open>current_step\<close> is returned with the exception, for the \<open>except\<close> clause.
  \<open>STEP_FUNCTIONS[step]\<close> raises \<open>KeyError\<close> on a name that is not a key.
\<close>

fun live_loop ::
  "env \<Rightarrow> string list \<Rightarrow> string option \<Rightarrow> progress_log \<Rightarrow> world
     \<Rightarrow> exn option \<times> string option \<times> progress_log \<times> world" where
  "live_loop env [] current_step progress w = (None, current_step, progress, w)"
| "live_loop env (s # rest) current_step progress w =
     (case start_step env s progress w of
        (Some e, progress1, w1) \<Rightarrow> (Some e, Some s, progress1, w1)
      | (None, progress1, w1) \<Rightarrow>
          if s \<notin> set STEP_FUNCTIONS then (Some (KeyError s), Some s, progress1, w1)
          else (let w2 = w1\<lparr>invoked := invoked w1 @ [s]\<rparr>
                in case handler env s of
                     Some e \<Rightarrow> (Some e, Some s, progress1, w2)
                   | None \<Rightarrow>
                       (case complete_step env s ''completed'' None progress1 w2 of
                          (Some e, progress3, w3) \<Rightarrow> (Some e, Some s, progress3, w3)
                        | (None, progress3, w3) \<Rightarrow> live_loop env rest (Some s) progress3 w3)))"

text \<open>
  The \<open>except Exception\<close> clause once \<open>progress\<close> is assigned: both recording calls sit in
  their own \<open>try\<close> whose \<open>except\<close> passes; the caller re-raises \<open>exc\<close>.
\<close>

definition handle_failure ::
  "env \<Rightarrow> exn \<Rightarrow> string option \<Rightarrow> progress_log \<Rightarrow> world \<Rightarrow> progress_log \<times> world" where
  "handle_failure env exc current_step progress w =
     (let (progress1, w1) =
            (case current_step of
               Some s \<Rightarrow> (case fail_step env s (Some (str_exn env exc)) progress w of
                           (_, progress', w') \<Rightarrow> (progress', w'))
             | None \<Rightarrow> (progress, w))
      in case finish env ''failed'' (Some (str_exn env exc)) progress1 w1 of
           (_, progress2, w2) \<Rightarrow> (progress2, w2))"

text \<open>
  The \<open>finally\<close> clause, entered with \<open>log_handler\<close> assigned: the handler is removed from
  the logger and closed.  An exception raised by \<open>close\<close> takes the place of whatever the
  \<open>try\<close> statement was ending with, a return or an exception on its way out.
\<close>

definition finally_outcome :: "env \<Rightarrow> outcome \<Rightarrow> outcome" where
  "finally_outcome env out = (case log_close_result env of None \<Rightarrow> out | Some e \<Rightarrow> Raised e)"

text \<open>
  The \<open>try\<close> statement of \<open>run\<close>.  The result is how the call ends, the \<open>ProgressLog\<close> it
  holds (if the constructor returned), and the world.  When the constructor raises,
  \<open>log_handler\<close> is still \<open>None\<close> and the \<open>finally\<close> clause does nothing.
\<close>

definition execute ::
  "config \<Rightarrow> env \<Rightarrow> string list \<Rightarrow> bool \<Rightarrow> world \<Rightarrow> outcome \<times> progress_log option \<times> world" where
  "execute cfg env order dry w0 =
     (let log_dir = root cfg @ ''/outputs/run_history'';
          (start_time, w1) = now env w0;
          suffix = (if dry then ''_dryrun'' else []);
          session_name = ''run_'' @ strftime env start_time @ suffix;
          log_path = (log_dir, session_name @ ''.log'');
          progress_path = (log_dir, session_name @ ''.json'')
      in case ProgressLog env progress_path session_name dry order (Some start_time) w1 of
           (Some e, _, w2) \<Rightarrow> (Raised e, None, w2)
         | (None, progress, w2) \<Rightarrow>
             (let w3 = add_handler log_path w2;
                  w4 = log_msg ''INFO'' (''Run started (dry_run='' @ (if dry then ''True'' else ''False'')
                                          @ ''): '' @ join '', '' order) w3;
                  (r, current_step, progress', w5) =
                    (if dry then
                       (case plan_loop env order progress w4 of
                          (Some e, p, w) \<Rightarrow> (Some e, None, p, w)
                        | (None, p, w) \<Rightarrow>
                            (case finish env ''dry_run'' None p w of
                               (Some e, p', w') \<Rightarrow> (Some e, None, p', w')
                             | (None, p', w') \<Rightarrow> (None, None, p', log_msg ''INFO'' ''Dry run complete'' w')))
                     else
                       (case live_loop env order None progress w4 of
                          (Some e, cur, p, w) \<Rightarrow> (Some e, cur, p, w)
                        | (None, cur, p, w) \<Rightarrow>
                            (case finish env ''completed'' None p w of
                               (Some e, p', w') \<Rightarrow> (Some e, cur, p', w')
                             | (None, p', w') \<Rightarrow> (None, cur, p', log_msg ''INFO'' ''Run complete'' w'))))
              in case r of
                   None \<Rightarrow> (finally_outcome env Returned, Some progress', remove_handler log_path w5)
                 | Some exc \<Rightarrow>
                     (case handle_failure env exc current_step progress' w5 of
                        (progress'', w6) \<Rightarrow>
                          (finally_outcome env (Raised exc), Some progress'', remove_handler log_path w6))))"

definition repr_list :: "env \<Rightarrow> string list \<Rightarrow> string" where
  "repr_list env xs = ''['' @ join '', '' (map (py_repr env) xs) @ '']''"

definition run ::
  "config \<Rightarrow> env \<Rightarrow> string option list option \<Rightarrow> bool \<Rightarrow> world \<Rightarrow> outcome \<times> progress_log option \<times> world" where
  "run cfg env selected_steps dry w =
     (case selected_steps of
        Some tokens \<Rightarrow>
          (case resolve_selection tokens of
             Inl e \<Rightarrow> (Raised e, None, w)
           | Inr order \<Rightarrow>
               if order = []
               then (Returned, None,
                     log_msg ''WARNING'' (''No matching steps to run for selection: ''
                                           @ repr_list env (selected_list_of tokens)) w)
               else execute cfg env order dry w)
      | None \<Rightarrow>
          (case configured_steps cfg of
             Inl e \<Rightarrow> (Raised e, None, w)
           | Inr order \<Rightarrow> execute cfg env order dry w))"

text \<open>The run order that \<open>run\<close> goes on with, when it does.\<close>

definition run_order_is :: "config \<Rightarrow> string option list option \<Rightarrow> string list \<Rightarrow> bool" where
  "run_order_is cfg selected_steps order =
     (case selected_steps of
        Some tokens \<Rightarrow> resolve_selection tokens = Inr order \<and> order \<noteq> []
      | None \<Rightarrow> configured_steps cfg = Inr order)"

section \<open>Notions used to state the properties\<close>

text \<open>The position at which \<open>x\<close> first occurs in \<open>xs\<close>.\<close>

definition first_index :: "'a list \<Rightarrow> 'a \<Rightarrow> nat" where
  "first_index xs x = length (takeWhile (\<lambda>y. y \<noteq> x) xs)"

text \<open>The tokens of a selection that resolve to no key of \<open>STEP_FUNCTIONS\<close>.\<close>

definition unknown_steps :: "string option list \<Rightarrow> string list" where
  "unknown_steps tokens = filter (\<lambda>s. resolve_alias s \<notin> set STEP_FUNCTIONS) (selected_list_of tokens)"

text \<open>
  Stated after the specification: a configuration block exists under a key of the
  \<open>steps\<close> mapping when the key is bound to a mapping, whatever the mapping holds; the
  default order keeps the steps of \<open>STEP_SEQUENCE\<close> with a block under the canonical or
  the legacy key.
\<close>

definition block_exists :: "(string \<times> yaml) list \<Rightarrow> string \<Rightarrow> bool" where
  "block_exists steps_cfg k = (case dict_get steps_cfg k of Some (YMap content) \<Rightarrow> True | _ \<Rightarrow> False)"

definition default_order :: "(string \<times> yaml) list \<Rightarrow> string list" where
  "default_order steps_cfg =
     map fst (filter (\<lambda>(primary, legacy). block_exists steps_cfg primary \<or> block_exists steps_cfg legacy)
                STEP_SEQUENCE)"

text \<open>
  A key of a step's block is unset when it is absent or bound to a value Python takes as
  false (\<open>None\<close>, the empty string); a fallback is unset when no key path is given or the
  path leads to nothing or to the empty string.
\<close>

definition key_unset :: "(string \<times> yaml) list \<Rightarrow> string \<Rightarrow> bool" where
  "key_unset step_cfg key = (case dict_get step_cfg key of None \<Rightarrow> True | Some v \<Rightarrow> \<not> truthy v)"

definition fallback_unset :: "config \<Rightarrow> string list option \<Rightarrow> bool" where
  "fallback_unset cfg fallback_keys =
     (case fallback_keys of
        None \<Rightarrow> True
      | Some fks \<Rightarrow> fks = [] \<or> get cfg fks YNull = YNull \<or> get cfg fks YNull = YStr [])"

definition missing_input_message :: "string \<Rightarrow> string" where
  "missing_input_message key =
     ''Missing input path for key '' @ [CHR 0x27] @ key @ [CHR 0x27] @ '' and no fallback provided''"

text \<open>What the n-th call of \<open>_write\<close> raises, if it raises.\<close>

definition write_exn :: "env \<Rightarrow> nat \<Rightarrow> exn option" where
  "write_exn env n = (case write_result env n of WriteOk \<Rightarrow> None | WriteFails k e \<Rightarrow> Some e)"

text \<open>
  The step identifier, status and message of the entries of the session held by a
  \<open>ProgressLog\<close> (\<open>self.data["steps"]\<close>), in order; \<open>statuses\<close> leaves the message out.
\<close>

definition entry_summary :: "step_entry \<Rightarrow> string \<times> string \<times> string option" where
  "entry_summary e = (e_step e, e_status e, e_message e)"

definition summary :: "progress_log \<Rightarrow> (string \<times> string \<times> string option) list" where
  "summary pl = map entry_summary (d_steps (data pl))"

text \<open>
  The entries that \<open>plan_step\<close> and \<open>start_step\<close> append, and what \<open>complete_step\<close>
  makes of the entry it found.
\<close>

definition planned_entry :: "env \<Rightarrow> string \<Rightarrow> datetime \<Rightarrow> step_entry" where
  "planned_entry env s t =
     \<lparr>e_step = s, e_status = ''planned'', e_noted_at = Some (fmt env t), e_started_at = None,
      e_finished_at = None, e_duration_seconds = None, e_message = None\<rparr>"

definition running_entry :: "env \<Rightarrow> string \<Rightarrow> datetime \<Rightarrow> step_entry" where
  "running_entry env s t =
     \<lparr>e_step = s, e_status = ''running'', e_noted_at = None, e_started_at = Some (fmt env t),
      e_finished_at = None, e_duration_seconds = None, e_message = None\<rparr>"

definition completed_entry ::
  "env \<Rightarrow> string \<Rightarrow> string option \<Rightarrow> datetime \<Rightarrow> datetime option \<Rightarrow> step_entry \<Rightarrow> step_entry" where
  "completed_entry env st msg finished start_time entry =
     (let entry = entry\<lparr>e_status := st, e_finished_at := Some (fmt env finished)\<rparr>;
          entry = (case start_time of
                     Some t \<Rightarrow> entry\<lparr>e_duration_seconds := Some (finished - t)\<rparr>
                   | None \<Rightarrow> entry)
      in if is_set msg then entry\<lparr>e_message := msg\<rparr> else entry)"

definition statuses :: "progress_log \<Rightarrow> (string \<times> string) list" where
  "statuses pl = map (\<lambda>e. (e_step e, e_status e)) (d_steps (data pl))"

text \<open>
  The invariant of a \<open>ProgressLog\<close> whose steps were each started at most once and never
  completed with the status \<open>running\<close>: the active starts have distinct keys; an entry
  that is \<open>running\<close> has its step among them; no two entries that \<open>_find_step_entry\<close>
  can return have the same step; such entries belong to started steps; and every active
  start has its \<open>running\<close> entry.
\<close>

definition rcf :: "step_entry \<Rightarrow> bool" where
  "rcf e = (e_status e \<in> {''running'', ''completed'', ''failed''})"

definition inv_running :: "step_entry list \<Rightarrow> (string \<times> datetime) list \<Rightarrow> bool" where
  "inv_running es act =
     (\<forall>i<length es. e_status (es ! i) = ''running'' \<longrightarrow> e_step (es ! i) \<in> fst ` set act)"

definition inv_unique :: "step_entry list \<Rightarrow> bool" where
  "inv_unique es =
     (\<forall>i<length es. \<forall>j<length es.
        rcf (es ! i) \<and> rcf (es ! j) \<and> e_step (es ! i) = e_step (es ! j) \<longrightarrow> i = j)"

definition inv_started :: "string set \<Rightarrow> step_entry list \<Rightarrow> bool" where
  "inv_started S es = (\<forall>i<length es. rcf (es ! i) \<longrightarrow> e_step (es ! i) \<in> S)"

definition inv_active :: "step_entry list \<Rightarrow> (string \<times> datetime) list \<Rightarrow> bool" where
  "inv_active es act =
     (\<forall>s \<in> fst ` set act. \<exists>i<length es. e_step (es ! i) = s \<and> e_status (es ! i) = ''running'')"

definition log_inv :: "string set \<Rightarrow> progress_log \<Rightarrow> bool" where
  "log_inv S pl =
     (distinct (map fst (active_starts pl))
      \<and> inv_running (d_steps (data pl)) (active_starts pl)
      \<and> inv_unique (d_steps (data pl))
      \<and> inv_started S (d_steps (data pl))
      \<and> inv_active (d_steps (data pl)) (active_starts pl))"

text \<open>What the loop of \<open>finish\<close> makes of the entry of a pending step.\<close>

definition failed_pending_entry :: "env \<Rightarrow> datetime \<Rightarrow> datetime \<Rightarrow> string option \<Rightarrow> step_entry \<Rightarrow> step_entry" where
  "failed_pending_entry env finished started msg e =
     (let pending_entry = e\<lparr>e_status := ''failed'', e_finished_at := Some (fmt env finished),
                              e_duration_seconds := Some (finished - started)\<rparr>
      in if is_set msg \<and> e_message pending_entry = None
         then pending_entry\<lparr>e_message := msg\<rparr> else pending_entry)"

text \<open>
  A state of the file system leaves the two destination files intact with respect to the
  state \<open>fs0\<close> before a write when each of them holds what it held in \<open>fs0\<close> or the
  complete new document.  A call of \<open>_write\<close> on \<open>pl\<close> that starts in world \<open>w\<close> and ends
  with \<open>r\<close> in world \<open>w'\<close> has persisted \<open>pl\<close> when it is the one write between \<open>w\<close> and
  \<open>w'\<close>, every state it went through is intact, \<open>w'\<close> holds the last of them, and, when
  it did not raise, both files hold the new documents.
\<close>

definition intact :: "env \<Rightarrow> progress_log \<Rightarrow> (path \<Rightarrow> string option) \<Rightarrow> (path \<Rightarrow> string option) \<Rightarrow> bool" where
  "intact env pl fs0 fs =
     ((fs (path pl) = fs0 (path pl) \<or> fs (path pl) = Some (json_dumps env (SessionDoc (data pl))))
      \<and> (fs (latest_path pl) = fs0 (latest_path pl)
          \<or> fs (latest_path pl) = Some (json_dumps env (LatestDoc (latest_payload_of pl)))))"

definition persisted :: "env \<Rightarrow> progress_log \<Rightarrow> world \<Rightarrow> exn option \<Rightarrow> world \<Rightarrow> bool" where
  "persisted env pl w r w' =
     (r = write_exn env (writes w)
      \<and> writes w' = Suc (writes w)
      \<and> files w' = last (files w # write_states env pl w)
      \<and> list_all (intact env pl (files w)) (write_states env pl w)
      \<and> (r = None \<longrightarrow>
            files w' (path pl) = Some (json_dumps env (SessionDoc (data pl)))
            \<and> files w' (latest_path pl) = Some (json_dumps env (LatestDoc (latest_payload_of pl)))))"

text \<open>
  \<open>complete_step\<close> and \<open>fail_step\<close> look the entry of their step up with
  \<open>_find_step_entry\<close> before they change anything; \<open>missing_entry\<close> is the \<open>KeyError\<close> of
  that lookup, if it raises one.
\<close>

fun looked_up :: "pl_op \<Rightarrow> string option" where
  "looked_up (CompleteStep s st msg) = Some s"
| "looked_up (FailStep s msg) = Some s"
| "looked_up _ = None"

definition missing_entry :: "env \<Rightarrow> pl_op \<Rightarrow> progress_log \<Rightarrow> exn option" where
  "missing_entry env x pl =
     (case looked_up x of
        None \<Rightarrow> None
      | Some s \<Rightarrow> (case find_step_entry env s (d_steps (data pl)) of
                    Inl e \<Rightarrow> Some e
                  | Inr i \<Rightarrow> None))"

text \<open>
  The session file is not itself called \<open>latest.json\<close> or \<open>latest.json.tmp\<close> (\<open>run\<close> calls
  it \<open>run_<timestamp>.json\<close>), and every active start has an entry that
  \<open>_find_step_entry\<close> finds: this holds of every \<open>ProgressLog\<close> from its constructor on.
\<close>

definition well_named :: "path \<Rightarrow> progress_log \<Rightarrow> bool" where
  "well_named p pl =
     (path pl = p \<and> latest_path pl = (fst p, ''latest.json'')
      \<and> snd p \<noteq> ''latest.json'' \<and> snd p \<noteq> ''latest.json.tmp'')"

definition reach_inv :: "path \<Rightarrow> progress_log \<Rightarrow> bool" where
  "reach_inv p pl =
     (well_named p pl
      \<and> (\<forall>s\<in>fst ` set (active_starts pl). \<exists>e\<in>set (d_steps (data pl)). entry_matches s e))"

section \<open>A concrete environment\<close>

definition demo_env :: env where
  "demo_env =
     \<lparr>clock = (\<lambda>n. 1000000 * int n),
      isoformat = (\<lambda>t. if t < 2000000 then ''t0'' else ''t1''),
      strftime = (\<lambda>t. ''0''),
      json_dumps = (\<lambda>d. case d of SessionDoc s \<Rightarrow> ''S'' @ d_status s | LatestDoc l \<Rightarrow> ''L'' @ l_status l),
      py_repr = (\<lambda>s. [CHR 0x27] @ s @ [CHR 0x27]),
      write_result = (\<lambda>n. WriteOk),
      handler = (\<lambda>s. None),
      log_close_result = None\<rparr>"

definition demo_resolve :: "string \<Rightarrow> string \<Rightarrow> string" where
  "demo_resolve r p = r @ ''/'' @ p"

definition demo_world :: world where
  "demo_world =
     \<lparr>files = (\<lambda>p. None), ticks = 0, writes = 0, invoked = [], log_files = (\<lambda>p. None),
      log_handlers = [], console = []\<rparr>"

definition demo_config :: config where
  "demo_config =
     \<lparr>cfg_data = [(''steps'', YMap [(''filter_mapped_snps'', YMap []),
                                    (''step01_filter_variants'', YMap [(''input_path'', YStr ''in.csv'')]),
                                    (''step13_pcoa'', YNull)])],
      root = ''/proj''\<rparr>"

definition failing_env :: "string \<Rightarrow> nat \<Rightarrow> env" where
  "failing_env msg good_writes =
     demo_env\<lparr>write_result := (\<lambda>n. if n < good_writes then WriteOk
                                   else WriteFails 0 (PyException ''OSError'' ''No space left on device'')),
              handler := (\<lambda>s. if s = ''step13_pcoa'' then Some (PyException ''ValueError'' msg)
                               else None)\<rparr>"

definition full_disk_env :: env where
  "full_disk_env =
     (failing_env ''boom'' 4)\<lparr>log_close_result :=
        Some (PyException ''OSError'' ''No space left on device'')\<rparr>"

definition demo_selection :: "string option list option" where
  "demo_selection = Some [Some ''step01_filter_variants,pcoa'', Some ''step02_filter_mapped_snps'']"

definition demo_order :: "string list" where
  "demo_order = [''step01_filter_variants'', ''step13_pcoa'', ''step02_filter_mapped_snps'']"

definition demo_log :: "exn option \<times> progress_log \<times> world" where
  "demo_log = ProgressLog demo_env (''/proj/outputs/run_history'', ''run_0.json'') ''run_0'' False
                [''a'', ''b''] None demo_world"

definition demo_ops :: "pl_op list" where
  "demo_ops = [PlanStep ''x'', StartStep ''a'', StartStep ''b'', CompleteStep ''a'' ''completed'' None]"

definition demo_after :: "progress_log \<times> world" where
  "demo_after = apply_ops demo_env demo_ops (fst (snd demo_log)) (snd (snd demo_log))"

definition restatus_ops :: "pl_op list" where
  "restatus_ops = [StartStep ''a'', CompleteStep ''a'' ''running'' None]"

definition restatus_after :: "progress_log \<times> world" where
  "restatus_after = apply_ops demo_env restatus_ops (fst (snd demo_log)) (snd (snd demo_log))"

section \<open>Properties of the selection\<close>


lemma classify_eq:
  "classify xs normalised unknown =
     (normalised @ map resolve_alias (filter (\<lambda>s. resolve_alias s \<in> set STEP_FUNCTIONS) xs),
      unknown @ filter (\<lambda>s. resolve_alias s \<notin> set STEP_FUNCTIONS) xs)"
  by (induction xs arbitrary: normalised unknown) (simp_all add: Let_def)

lemma dedupe_append: "dedupe xs seen order = order @ dedupe xs seen []"
proof (induction xs arbitrary: seen order)
  case Nil
  show ?case by simp
next
  case (Cons x xs)
  show ?case
  proof (cases "x \<in> seen")
    case True
    then show ?thesis using Cons.IH [of seen order] by simp
  next
    case False
    then show ?thesis
      using Cons.IH [of "insert x seen" "order @ [x]"] Cons.IH [of "insert x seen" "[x]"] by simp
  qed
qed

lemma dedupe_Cons:
  "dedupe (x # xs) seen [] = (if x \<in> seen then dedupe xs seen [] else x # dedupe xs (insert x seen) [])"
  using dedupe_append [of xs "insert x seen" "[x]"] by simp

lemma set_dedupe: "set (dedupe xs seen []) = set xs - seen"
proof (induction xs arbitrary: seen)
  case Nil
  show ?case by simp
next
  case (Cons x xs)
  show ?case unfolding dedupe_Cons using Cons.IH by auto
qed

lemma distinct_dedupe: "distinct (dedupe xs seen [])"
proof (induction xs arbitrary: seen)
  case Nil
  show ?case by simp
next
  case (Cons x xs)
  show ?case unfolding dedupe_Cons using Cons.IH by (simp add: set_dedupe)
qed

lemma first_index_append_notin:
  "x \<notin> set pre \<Longrightarrow> first_index (pre @ ys) x = length pre + first_index ys x"
  by (induction pre) (auto simp: first_index_def)

lemma sorted_dedupe_gen:
  "seen = set pre \<Longrightarrow>
   sorted_wrt (\<lambda>a b. first_index (pre @ xs) a < first_index (pre @ xs) b) (dedupe xs seen [])"
proof (induction xs arbitrary: seen pre)
  case Nil
  show ?case by simp
next
  case (Cons x xs)
  show ?case
  proof (cases "x \<in> seen")
    case True
    have "sorted_wrt (\<lambda>a b. first_index ((pre @ [x]) @ xs) a < first_index ((pre @ [x]) @ xs) b)
            (dedupe xs (set (pre @ [x])) [])"
      by (rule Cons.IH) simp
    moreover have "set (pre @ [x]) = seen" using True Cons.prems by auto
    ultimately show ?thesis using True by (simp add: dedupe_Cons)
  next
    case False
    have ih: "sorted_wrt (\<lambda>a b. first_index ((pre @ [x]) @ xs) a < first_index ((pre @ [x]) @ xs) b)
            (dedupe xs (set (pre @ [x])) [])"
      by (rule Cons.IH) simp
    have eq: "set (pre @ [x]) = insert x seen" using Cons.prems by auto
    have fx: "first_index (pre @ x # xs) x = length pre"
      using False Cons.prems by (simp add: first_index_append_notin) (simp add: first_index_def)
    have later: "length pre < first_index (pre @ x # xs) b"
      if "b \<in> set (dedupe xs (insert x seen) [])" for b
    proof -
      from that have "b \<in> set xs" "b \<noteq> x" "b \<notin> set pre"
        using Cons.prems by (auto simp: set_dedupe)
      then show ?thesis
        by (simp add: first_index_append_notin) (simp add: first_index_def)
    qed
    show ?thesis using False ih eq fx later by (simp add: dedupe_Cons del: dedupe.simps)
  qed
qed

lemma resolve_selection_Inr:
  assumes "resolve_selection tokens = Inr order"
  shows "order = dedupe (map resolve_alias (selected_list_of tokens)) {} []"
    and "\<forall>s \<in> set (selected_list_of tokens). resolve_alias s \<in> set STEP_FUNCTIONS"
proof -
  let ?sel = "selected_list_of tokens"
  have unk: "filter (\<lambda>s. resolve_alias s \<notin> set STEP_FUNCTIONS) ?sel = []"
    using assms by (simp add: resolve_selection_def classify_eq Let_def split: if_splits)
  then show all: "\<forall>s \<in> set ?sel. resolve_alias s \<in> set STEP_FUNCTIONS"
    by (simp add: filter_empty_conv)
  then have "filter (\<lambda>s. resolve_alias s \<in> set STEP_FUNCTIONS) ?sel = ?sel"
    by (simp add: filter_id_conv)
  then show "order = dedupe (map resolve_alias ?sel) {} []"
    using assms unk by (simp add: resolve_selection_def classify_eq Let_def split: if_splits)
qed

text \<open>
  C5.  When the selection resolves, the run order that \<open>run\<close> computes holds every
  resolved identifier of the selection exactly once (it is distinct and has the same
  elements as the alias-resolved selection), and its elements stand in the order in which
  they first occur in the alias-resolved selection.  A comma-joined token counts as its
  parts.  This list, when it is not empty, is the one \<open>run\<close> goes on to execute.
\<close>

theorem run_order_first_occurrence:
  assumes "resolve_selection tokens = Inr order"
  shows "distinct order
       \<and> set order = set (map resolve_alias (selected_list_of tokens))
       \<and> sorted_wrt (\<lambda>a b. first_index (map resolve_alias (selected_list_of tokens)) a
                            < first_index (map resolve_alias (selected_list_of tokens)) b) order
       \<and> (order \<noteq> [] \<longrightarrow> run cfg env (Some tokens) dry w = execute cfg env order dry w)"
proof -
  let ?n = "map resolve_alias (selected_list_of tokens)"
  have o: "order = dedupe ?n {} []" using assms by (rule resolve_selection_Inr)
  have "sorted_wrt (\<lambda>a b. first_index ([] @ ?n) a < first_index ([] @ ?n) b) (dedupe ?n {} [])"
    by (rule sorted_dedupe_gen) simp
  then have shape: "distinct order \<and> set order = set ?n
       \<and> sorted_wrt (\<lambda>a b. first_index ?n a < first_index ?n b) order"
    unfolding o by (simp add: distinct_dedupe set_dedupe del: set_map)
  have "order \<noteq> [] \<longrightarrow> run cfg env (Some tokens) dry w = execute cfg env order dry w"
    using assms by (simp add: run_def)
  with shape show ?thesis by simp
qed

lemma join_contains: "u \<in> set xs \<Longrightarrow> \<exists>pre post. join sep xs = pre @ u @ post"
proof (induction sep xs rule: join.induct)
  case (1 sep)
  then show ?case by simp
next
  case (2 sep x)
  then have "join sep [x] = [] @ u @ []" by simp
  then show ?case by blast
next
  case (3 sep x y ys)
  show ?case
  proof (cases "u = x")
    case True
    then have "join sep (x # y # ys) = [] @ u @ (sep @ join sep (y # ys))" by simp
    then show ?thesis by blast
  next
    case False
    then have "u \<in> set (y # ys)" using "3.prems" by simp
    then obtain pre post where "join sep (y # ys) = pre @ u @ post" using "3.IH" by blast
    then have "join sep (x # y # ys) = (x @ sep @ pre) @ u @ post" by simp
    then show ?thesis by blast
  qed
qed

theorem run_order_first_occurrence_witness:
  "resolve_selection [Some ''step01_filter_variants'', Some ''filter_variants,step02_filter_mapped_snps'']
     = Inr [''step01_filter_variants'', ''step02_filter_mapped_snps'']
   \<and> distinct [''step01_filter_variants'', ''step02_filter_mapped_snps'']
   \<and> set [''step01_filter_variants'', ''step02_filter_mapped_snps'']
       = set (map resolve_alias (selected_list_of
               [Some ''step01_filter_variants'', Some ''filter_variants,step02_filter_mapped_snps'']))
   \<and> sorted_wrt
        (\<lambda>a b. first_index (map resolve_alias (selected_list_of
                   [Some ''step01_filter_variants'', Some ''filter_variants,step02_filter_mapped_snps''])) a
              < first_index (map resolve_alias (selected_list_of
                   [Some ''step01_filter_variants'', Some ''filter_variants,step02_filter_mapped_snps''])) b)
        [''step01_filter_variants'', ''step02_filter_mapped_snps'']"
proof -
  have h: "resolve_selection [Some ''step01_filter_variants'', Some ''filter_variants,step02_filter_mapped_snps'']
             = Inr [''step01_filter_variants'', ''step02_filter_mapped_snps'']"
    by code_simp
  show ?thesis using h run_order_first_occurrence [OF h] by blast
qed

text \<open>
  C4.  If some token of the selection resolves, after alias resolution, to no key of
  \<open>STEP_FUNCTIONS\<close>, then \<open>run\<close> raises \<open>ConfigError\<close> with the message
  \<open>Unknown step(s): \<close> followed by all such tokens joined by commas, so every one of them
  occurs in the message; no \<open>ProgressLog\<close> is created and the world (files, log files,
  handler calls) is left as it was.
\<close>

theorem unknown_steps_all_reported:
  assumes "\<exists>s \<in> set (selected_list_of tokens). resolve_alias s \<notin> set STEP_FUNCTIONS"
  shows "run cfg env (Some tokens) dry w
           = (Raised (ConfigError (''Unknown step(s): '' @ join '', '' (unknown_steps tokens))), None, w)
       \<and> (\<forall>u \<in> set (selected_list_of tokens). resolve_alias u \<notin> set STEP_FUNCTIONS \<longrightarrow>
            (\<exists>pre post. ''Unknown step(s): '' @ join '', '' (unknown_steps tokens) = pre @ u @ post))"
proof -
  have ne: "unknown_steps tokens \<noteq> []"
    using assms by (auto simp: unknown_steps_def filter_empty_conv)
  have "resolve_selection tokens
          = Inl (ConfigError (''Unknown step(s): '' @ join '', '' (unknown_steps tokens)))"
    using ne by (simp add: resolve_selection_def classify_eq unknown_steps_def Let_def)
  then have r: "run cfg env (Some tokens) dry w
           = (Raised (ConfigError (''Unknown step(s): '' @ join '', '' (unknown_steps tokens))), None, w)"
    by (simp add: run_def)
  have "\<exists>pre post. ''Unknown step(s): '' @ join '', '' (unknown_steps tokens) = pre @ u @ post"
    if "u \<in> set (selected_list_of tokens)" "resolve_alias u \<notin> set STEP_FUNCTIONS" for u
  proof -
    have "u \<in> set (unknown_steps tokens)" using that by (simp add: unknown_steps_def)
    then obtain pre post where "join '', '' (unknown_steps tokens) = pre @ u @ post"
      using join_contains by blast
    then have "''Unknown step(s): '' @ join '', '' (unknown_steps tokens)
                 = (''Unknown step(s): '' @ pre) @ u @ post" by simp
    then show ?thesis by blast
  qed
  with r show ?thesis by blast
qed

theorem unknown_steps_all_reported_witness:
  "run demo_config demo_env (Some [Some ''step01_filter_variants'', Some ''bogus1, bogus2'']) False demo_world
     = (Raised (ConfigError ''Unknown step(s): bogus1, bogus2''), None, demo_world)"
proof -
  have h: "\<exists>s \<in> set (selected_list_of [Some ''step01_filter_variants'', Some ''bogus1, bogus2'']).
             resolve_alias s \<notin> set STEP_FUNCTIONS"
    by code_simp
  have u: "unknown_steps [Some ''step01_filter_variants'', Some ''bogus1, bogus2''] = [''bogus1'', ''bogus2'']"
    by code_simp
  show ?thesis
    using unknown_steps_all_reported [OF h, of demo_config demo_env False demo_world] u by simp
qed

text \<open>
  C10.  When an explicit selection leaves no part after splitting at commas and stripping
  white space, \<open>run\<close> returns normally: no \<open>ProgressLog\<close> is created, no file and no log
  file comes into being, nothing is written and no handler is called.
\<close>

theorem empty_selection_returns:
  assumes "selected_list_of tokens = []"
  shows "\<exists>w'. run cfg env (Some tokens) dry w = (Returned, None, w')
            \<and> files w' = files w \<and> dom (log_files w') = dom (log_files w)
            \<and> invoked w' = invoked w \<and> writes w' = writes w"
proof -
  have "resolve_selection tokens = Inr []"
    using assms by (simp add: resolve_selection_def Let_def)
  then show ?thesis
    by (auto simp: run_def log_msg_def dom_def split: if_splits)
qed

theorem empty_selection_returns_witness:
  "\<exists>w'. run demo_config demo_env (Some [Some '' , '', None, Some [], Some [CHR 0xA0, CHR '','', CHR 0x85]]) False demo_world = (Returned, None, w')
        \<and> files w' = files demo_world \<and> dom (log_files w') = dom (log_files demo_world)
        \<and> invoked w' = invoked demo_world \<and> writes w' = writes demo_world"
proof -
  have h: "selected_list_of [Some '' , '', None, Some [], Some [CHR 0xA0, CHR '','', CHR 0x85]] = []"
    by code_simp
  show ?thesis
    using empty_selection_returns [OF h, of demo_config demo_env False demo_world] by simp
qed

section \<open>Properties of the configuration\<close>


lemma block_exists_iff:
  "block_exists steps_cfg k = (case dict_get steps_cfg k of Some v \<Rightarrow> isinstance_dict v | None \<Rightarrow> False)"
  by (simp add: block_exists_def split: option.splits yaml.splits)

lemma configured_loop_eq:
  assumes "\<forall>(primary, legacy) \<in> set sq. legacy \<noteq> []"
  shows "configured_loop steps_cfg sq configured =
           configured @ map fst (filter (\<lambda>(primary, legacy). block_exists steps_cfg primary
                                           \<or> block_exists steps_cfg legacy) sq)"
  using assms
proof (induction sq arbitrary: configured)
  case Nil
  show ?case by simp
next
  case (Cons pl sq)
  obtain primary legacy where pl: "pl = (primary, legacy)" by (cases pl)
  have leg: "legacy \<noteq> []" using Cons.prems pl by simp
  have rest: "\<forall>(primary, legacy) \<in> set sq. legacy \<noteq> []" using Cons.prems by simp
  show ?case
    using leg Cons.IH [OF rest] by (simp add: pl Let_def block_exists_iff)
qed

lemma STEP_SEQUENCE_legacy: "\<forall>(primary, legacy) \<in> set STEP_SEQUENCE. legacy \<noteq> []"
  by (simp add: STEP_SEQUENCE_def)

lemma subseq_map_filter: "subseq (map f (filter P xs)) (map f xs)"
  by (induction xs) auto

text \<open>
  C9.  When the \<open>steps\<close> value of the configuration is a mapping (or is absent),
  \<open>configured_steps\<close> returns the default order: the subsequence of the canonical order
  made of the steps that have a block under the canonical key or under the legacy key.  A
  step is kept as soon as such a block exists, whatever its content, the empty block
  included.
\<close>

theorem configured_steps_default_order:
  assumes "get cfg [''steps''] (YMap []) = YMap steps_cfg"
  shows "configured_steps cfg = Inr (default_order steps_cfg)
       \<and> subseq (default_order steps_cfg) STEP_ORDER
       \<and> (\<forall>(primary, legacy) \<in> set STEP_SEQUENCE.
            (primary \<in> set (default_order steps_cfg))
              = ((\<exists>content. dict_get steps_cfg primary = Some (YMap content))
                 \<or> (\<exists>content. dict_get steps_cfg legacy = Some (YMap content))))"
proof -
  let ?P = "\<lambda>(primary, legacy). block_exists steps_cfg primary \<or> block_exists steps_cfg legacy"
  have run: "configured_steps cfg = Inr (default_order steps_cfg)"
    using assms configured_loop_eq [OF STEP_SEQUENCE_legacy, of steps_cfg "[]"]
    by (simp add: configured_steps_def default_order_def)
  have sub: "subseq (default_order steps_cfg) STEP_ORDER"
    unfolding default_order_def STEP_ORDER_def by (rule subseq_map_filter)
  have dist: "distinct (map fst STEP_SEQUENCE)"
    by (simp add: STEP_SEQUENCE_def)
  have mem: "(primary \<in> set (default_order steps_cfg))
              = ((\<exists>content. dict_get steps_cfg primary = Some (YMap content))
                 \<or> (\<exists>content. dict_get steps_cfg legacy = Some (YMap content)))"
    if pl: "(primary, legacy) \<in> set STEP_SEQUENCE" for primary legacy
  proof -
    have "(primary \<in> set (default_order steps_cfg)) = ?P (primary, legacy)"
    proof
      assume "primary \<in> set (default_order steps_cfg)"
      then obtain l' where l': "(primary, l') \<in> set STEP_SEQUENCE" "?P (primary, l')"
        by (auto simp: default_order_def)
      have "l' = legacy" using dist l'(1) pl by (rule eq_key_imp_eq_value)
      then show "?P (primary, legacy)" using l'(2) by simp
    next
      assume "?P (primary, legacy)"
      then have "(primary, legacy) \<in> set (filter ?P STEP_SEQUENCE)" using pl by simp
      then have "fst (primary, legacy) \<in> fst ` set (filter ?P STEP_SEQUENCE)" by (rule imageI)
      then show "primary \<in> set (default_order steps_cfg)" by (simp add: default_order_def)
    qed
    also have "\<dots> = ((\<exists>content. dict_get steps_cfg primary = Some (YMap content))
                 \<or> (\<exists>content. dict_get steps_cfg legacy = Some (YMap content)))"
      by (auto simp: block_exists_def split: option.splits yaml.splits)
    finally show ?thesis .
  qed
  show ?thesis using run sub mem by blast
qed

theorem configured_steps_default_order_witness:
  "get demo_config [''steps''] (YMap [])
     = YMap [(''filter_mapped_snps'', YMap []),
             (''step01_filter_variants'', YMap [(''input_path'', YStr ''in.csv'')]),
             (''step13_pcoa'', YNull)]
   \<and> configured_steps demo_config = Inr [''step01_filter_variants'', ''step02_filter_mapped_snps'']"
proof -
  have h: "get demo_config [''steps''] (YMap [])
     = YMap [(''filter_mapped_snps'', YMap []),
             (''step01_filter_variants'', YMap [(''input_path'', YStr ''in.csv'')]),
             (''step13_pcoa'', YNull)]"
    by code_simp
  have d: "default_order [(''filter_mapped_snps'', YMap []),
             (''step01_filter_variants'', YMap [(''input_path'', YStr ''in.csv'')]),
             (''step13_pcoa'', YNull)] = [''step01_filter_variants'', ''step02_filter_mapped_snps'']"
    by code_simp
  show ?thesis using h d configured_steps_default_order [OF h] by simp
qed

text \<open>
  C8.  \<open>_resolve_input_path\<close>: when the step's own key is set to a path string, the result
  is that string resolved by \<open>resolve_path\<close>; when the key is unset and the fallback key
  path resolves to a path, the result is that path; when the key is unset and the fallback
  is unset too, it raises \<open>ConfigError\<close> with a message that quotes the step's own key and
  does not depend on the fallback.
\<close>

theorem resolve_input_path_fallback_chain:
  "(dict_get step_cfg key = Some (YStr s) \<and> s \<noteq> [] \<longrightarrow>
      resolve_input_path R cfg step_cfg key fallback_keys
        = Inr (if is_absolute s then s else R (root cfg) s)
      \<and> resolve_path R cfg (YStr s) = Inr (Some (if is_absolute s then s else R (root cfg) s)))
 \<and> (key_unset step_cfg key \<and> fallback_keys = Some fks \<and> fks \<noteq> [] \<and> path_of R cfg fks = Inr (Some p) \<longrightarrow>
      resolve_input_path R cfg step_cfg key fallback_keys = Inr p)
 \<and> (key_unset step_cfg key \<and> fallback_unset cfg fallback_keys \<longrightarrow>
      resolve_input_path R cfg step_cfg key fallback_keys = Inl (ConfigError (missing_input_message key)))"
  by (auto simp: resolve_input_path_def resolve_path_def path_of_def key_unset_def fallback_unset_def
           missing_input_message_def Let_def split: option.splits)

theorem resolve_input_path_fallback_chain_witness:
  "resolve_input_path demo_resolve demo_config [(''input_path'', YStr ''data/raw.csv'')] ''input_path''
       (Some [''steps'', ''step01_filter_variants'', ''input_path''])
     = Inr ''/proj/data/raw.csv''
   \<and> resolve_input_path demo_resolve demo_config [(''input_path'', YStr [])] ''input_path''
       (Some [''steps'', ''step01_filter_variants'', ''input_path''])
     = Inr ''/proj/in.csv''
   \<and> resolve_input_path demo_resolve demo_config [] ''input_path'' (Some [''paths'', ''genotypes''])
     = Inl (ConfigError (''Missing input path for key '' @ [CHR 0x27] @ ''input_path'' @ [CHR 0x27]
                          @ '' and no fallback provided''))"
proof -
  have a: "dict_get [(''input_path'', YStr ''data/raw.csv'')] ''input_path'' = Some (YStr ''data/raw.csv'')
           \<and> ''data/raw.csv'' \<noteq> []"
    by code_simp
  have b: "key_unset [(''input_path'', YStr [])] ''input_path''
           \<and> Some [''steps'', ''step01_filter_variants'', ''input_path'']
               = Some [''steps'', ''step01_filter_variants'', ''input_path'']
           \<and> [''steps'', ''step01_filter_variants'', ''input_path''] \<noteq> []
           \<and> path_of demo_resolve demo_config [''steps'', ''step01_filter_variants'', ''input_path'']
               = Inr (Some ''/proj/in.csv'')"
    by code_simp
  have c: "key_unset [] ''input_path'' \<and> fallback_unset demo_config (Some [''paths'', ''genotypes''])"
    by code_simp
  have r: "root demo_config = ''/proj''" by (simp add: demo_config_def)
  have n: "\<not> is_absolute ''data/raw.csv''" by (simp add: is_absolute_def)
  show ?thesis
    using a b c r n
      resolve_input_path_fallback_chain [where step_cfg = "[(''input_path'', YStr ''data/raw.csv'')]"
        and key = "''input_path''" and s = "''data/raw.csv''" and R = demo_resolve and cfg = demo_config
        and fallback_keys = "Some [''steps'', ''step01_filter_variants'', ''input_path'']"]
      resolve_input_path_fallback_chain [where step_cfg = "[(''input_path'', YStr [])]"
        and key = "''input_path''" and R = demo_resolve and cfg = demo_config
        and fallback_keys = "Some [''steps'', ''step01_filter_variants'', ''input_path'']"
        and fks = "[''steps'', ''step01_filter_variants'', ''input_path'']" and p = "''/proj/in.csv''"]
      resolve_input_path_fallback_chain [where step_cfg = "[]"
        and key = "''input_path''" and R = demo_resolve and cfg = demo_config
        and fallback_keys = "Some [''paths'', ''genotypes'']"]
    by (simp add: demo_resolve_def missing_input_message_def)
qed

section \<open>Properties of a run\<close>

lemma write_progress_fst [simp]: "fst (write_progress env pl w) = write_exn env (writes w)"
  by (simp add: write_progress_def write_exn_def)

lemma write_progress_world [simp]:
  "invoked (snd (write_progress env pl w)) = invoked w"
  "ticks (snd (write_progress env pl w)) = ticks w"
  "writes (snd (write_progress env pl w)) = Suc (writes w)"
  "log_files (snd (write_progress env pl w)) = log_files w"
  "log_handlers (snd (write_progress env pl w)) = log_handlers w"
  "console (snd (write_progress env pl w)) = console w"
  by (simp_all add: write_progress_def)

lemma plan_step_fst: "fst (plan_step env s pl w) = write_exn env (writes w)"
  by (simp add: plan_step_def now_def split_def Let_def)

lemma plan_step_pl:
  "fst (snd (plan_step env s pl w))
     = pl\<lparr>data := (data pl)\<lparr>d_steps := d_steps (data pl) @ [planned_entry env s (clock env (ticks w))]\<rparr>\<rparr>"
  by (simp add: plan_step_def now_def split_def Let_def planned_entry_def)

lemma plan_step_world:
  "invoked (snd (snd (plan_step env s pl w))) = invoked w"
  "ticks (snd (snd (plan_step env s pl w))) = Suc (ticks w)"
  "writes (snd (snd (plan_step env s pl w))) = Suc (writes w)"
  "log_files (snd (snd (plan_step env s pl w))) = log_files w"
  "log_handlers (snd (snd (plan_step env s pl w))) = log_handlers w"
  "console (snd (snd (plan_step env s pl w))) = console w"
  by (simp_all add: plan_step_def now_def split_def Let_def)

lemma start_step_fst: "fst (start_step env s pl w) = write_exn env (writes w)"
  by (simp add: start_step_def now_def split_def Let_def)

lemma start_step_pl:
  "fst (snd (start_step env s pl w))
     = pl\<lparr>active_starts := dict_set (active_starts pl) s (clock env (ticks w)),
          data := (data pl)\<lparr>d_steps := d_steps (data pl) @ [running_entry env s (clock env (ticks w))]\<rparr>\<rparr>"
  by (simp add: start_step_def now_def split_def Let_def running_entry_def)

lemma start_step_world:
  "invoked (snd (snd (start_step env s pl w))) = invoked w"
  "ticks (snd (snd (start_step env s pl w))) = Suc (ticks w)"
  "writes (snd (snd (start_step env s pl w))) = Suc (writes w)"
  "log_files (snd (snd (start_step env s pl w))) = log_files w"
  "log_handlers (snd (snd (start_step env s pl w))) = log_handlers w"
  "console (snd (snd (start_step env s pl w))) = console w"
  by (simp_all add: start_step_def now_def split_def Let_def)

lemma completed_entry_simps [simp]:
  "e_step (completed_entry env st msg finished start_time entry) = e_step entry"
  "e_status (completed_entry env st msg finished start_time entry) = st"
  "e_finished_at (completed_entry env st msg finished start_time entry) = Some (fmt env finished)"
  "e_message (completed_entry env st msg finished start_time entry)
     = (if is_set msg then msg else e_message entry)"
  by (simp_all add: completed_entry_def Let_def split: option.splits)

lemma complete_step_KeyError:
  "find_step_entry env s (d_steps (data pl)) = Inl e \<Longrightarrow>
   complete_step env s st msg pl w = (Some e, pl, w\<lparr>ticks := Suc (ticks w)\<rparr>)"
  by (simp add: complete_step_def now_def)

lemma complete_step_fst:
  "find_step_entry env s (d_steps (data pl)) = Inr i \<Longrightarrow>
   fst (complete_step env s st msg pl w) = write_exn env (writes w)"
  by (simp add: complete_step_def now_def split_def Let_def)

lemma complete_step_pl:
  "find_step_entry env s (d_steps (data pl)) = Inr i \<Longrightarrow>
   fst (snd (complete_step env s st msg pl w))
     = pl\<lparr>active_starts := filter (\<lambda>kv. fst kv \<noteq> s) (active_starts pl),
          data := (data pl)\<lparr>d_steps := (d_steps (data pl))
                     [i := completed_entry env st msg (clock env (ticks w)) (map_of (active_starts pl) s)
                             (d_steps (data pl) ! i)],
                   d_last_completed_step := (if st = ''completed'' then Some s
                                             else d_last_completed_step (data pl))\<rparr>\<rparr>"
  by (simp add: complete_step_def now_def split_def Let_def completed_entry_def dict_pop_def
        split: option.splits)

lemma complete_step_world:
  "invoked (snd (snd (complete_step env s st msg pl w))) = invoked w"
  "ticks (snd (snd (complete_step env s st msg pl w))) = Suc (ticks w)"
  "log_files (snd (snd (complete_step env s st msg pl w))) = log_files w"
  "log_handlers (snd (snd (complete_step env s st msg pl w))) = log_handlers w"
  "console (snd (snd (complete_step env s st msg pl w))) = console w"
  by (simp_all add: complete_step_def now_def split_def Let_def split: sum.splits)

lemma finish_no_pending_fst:
  "active_starts pl = [] \<Longrightarrow> fst (finish env st msg pl w) = write_exn env (writes w)"
  by (simp add: finish_def now_def split_def Let_def)

lemma finish_no_pending_pl:
  "active_starts pl = [] \<Longrightarrow>
   fst (snd (finish env st msg pl w))
     = pl\<lparr>active_starts := [],
          data := (data pl)\<lparr>d_status := st, d_finished_at := Some (fmt env (clock env (ticks w))),
                           d_message := (if is_set msg then msg else d_message (data pl))\<rparr>\<rparr>"
  by (simp add: finish_def now_def split_def Let_def)

lemma finish_world:
  "invoked (snd (snd (finish env st msg pl w))) = invoked w"
  "ticks (snd (snd (finish env st msg pl w))) = Suc (ticks w)"
  "log_files (snd (snd (finish env st msg pl w))) = log_files w"
  "log_handlers (snd (snd (finish env st msg pl w))) = log_handlers w"
  "console (snd (snd (finish env st msg pl w))) = console w"
  by (simp_all add: finish_def now_def split_def Let_def split: option.splits)

lemma find_step_entry_last:
  "entry_matches s e \<Longrightarrow> find_step_entry env s (es @ [e]) = Inr (length es)"
  by (simp add: find_step_entry_def)

lemma log_msg_world [simp]:
  "invoked (log_msg level msg w) = invoked w"
  "ticks (log_msg level msg w) = ticks w"
  "writes (log_msg level msg w) = writes w"
  "files (log_msg level msg w) = files w"
  "log_handlers (log_msg level msg w) = log_handlers w"
  by (simp_all add: log_msg_def)

lemma add_handler_world [simp]:
  "invoked (add_handler p w) = invoked w"
  "ticks (add_handler p w) = ticks w"
  "writes (add_handler p w) = writes w"
  "files (add_handler p w) = files w"
  by (simp_all add: add_handler_def)

lemma remove_handler_world [simp]:
  "invoked (remove_handler p w) = invoked w"
  "ticks (remove_handler p w) = ticks w"
  "writes (remove_handler p w) = writes w"
  "files (remove_handler p w) = files w"
  "log_files (remove_handler p w) = log_files w"
  by (simp_all add: remove_handler_def)

lemma plan_stepE:
  assumes "plan_step env s pl w = (r, pl1, w1)"
  shows "r = write_exn env (writes w)"
    and "statuses pl1 = statuses pl @ [(s, ''planned'')]"
    and "active_starts pl1 = active_starts pl"
    and "d_status (data pl1) = d_status (data pl)"
    and "invoked w1 = invoked w"
proof -
  have r: "r = fst (plan_step env s pl w)" and p: "pl1 = fst (snd (plan_step env s pl w))"
    and w: "w1 = snd (snd (plan_step env s pl w))"
    using assms by simp_all
  show "r = write_exn env (writes w)" unfolding r by (rule plan_step_fst)
  show "statuses pl1 = statuses pl @ [(s, ''planned'')]"
    unfolding p by (simp add: plan_step_pl statuses_def planned_entry_def)
  show "active_starts pl1 = active_starts pl" unfolding p by (simp add: plan_step_pl)
  show "d_status (data pl1) = d_status (data pl)" unfolding p by (simp add: plan_step_pl)
  show "invoked w1 = invoked w" unfolding w by (rule plan_step_world)
qed

lemma plan_loop_props:
  "plan_loop env ss pl w = (r, pl', w') \<Longrightarrow>
     invoked w' = invoked w \<and> active_starts pl' = active_starts pl
     \<and> d_status (data pl') = d_status (data pl)
     \<and> (\<exists>n\<le>length ss. statuses pl' = statuses pl @ map (\<lambda>s. (s, ''planned'')) (take n ss)
                         \<and> (r = None \<longrightarrow> n = length ss))"
proof (induction ss arbitrary: pl w)
  case Nil
  then show ?case by simp
next
  case (Cons s ss)
  obtain r1 pl1 w1 where ps: "plan_step env s pl w = (r1, pl1, w1)"
    by (cases "plan_step env s pl w")
  note f = plan_stepE [OF ps]
  show ?case
  proof (cases r1)
    case None
    then have "plan_loop env ss pl1 (log_msg ''INFO'' (''[dry-run] '' @ s) w1) = (r, pl', w')"
      using Cons.prems ps by simp
    from Cons.IH [OF this] obtain n where n: "n \<le> length ss"
        "statuses pl' = statuses pl1 @ map (\<lambda>s. (s, ''planned'')) (take n ss)"
        "r = None \<longrightarrow> n = length ss"
      and rest: "invoked w' = invoked w" "active_starts pl' = active_starts pl"
        "d_status (data pl') = d_status (data pl)"
      by (auto simp: f)
    have "Suc n \<le> length (s # ss)" using n(1) by simp
    moreover have "statuses pl' = statuses pl @ map (\<lambda>s. (s, ''planned'')) (take (Suc n) (s # ss))"
      using n(2) f(2) by simp
    moreover have "r = None \<longrightarrow> Suc n = length (s # ss)" using n(3) by simp
    ultimately show ?thesis using rest by blast
  next
    case (Some e)
    then have res: "r = Some e" "pl' = pl1" "w' = w1"
      using Cons.prems ps by simp_all
    have "(1::nat) \<le> length (s # ss)" by simp
    moreover have "statuses pl' = statuses pl @ map (\<lambda>s. (s, ''planned'')) (take 1 (s # ss))"
      using f(2) res by simp
    moreover have "r = None \<longrightarrow> (1::nat) = length (s # ss)" using res by simp
    ultimately show ?thesis using res f by blast
  qed
qed

lemma plan_loop_ok:
  "\<forall>n. write_result env n = WriteOk \<Longrightarrow> fst (plan_loop env ss pl w) = None"
proof (induction ss arbitrary: pl w)
  case Nil
  show ?case by simp
next
  case (Cons s ss)
  obtain r1 pl1 w1 where ps: "plan_step env s pl w = (r1, pl1, w1)"
    by (cases "plan_step env s pl w")
  have "r1 = None" using plan_stepE(1) [OF ps] Cons.prems by (simp add: write_exn_def)
  then show ?case using Cons.IH [OF Cons.prems] ps by simp
qed

lemma ProgressLog_fst: "fst (ProgressLog env p sess dry order (Some t) w) = write_exn env (writes w)"
  by (simp add: ProgressLog_def split_def Let_def)

lemma ProgressLog_pl:
  "active_starts (fst (snd (ProgressLog env p sess dry order started w))) = []"
  "d_steps (data (fst (snd (ProgressLog env p sess dry order started w)))) = []"
  "d_status (data (fst (snd (ProgressLog env p sess dry order started w)))) = ''running''"
  "d_run_order (data (fst (snd (ProgressLog env p sess dry order started w)))) = order"
  "path (fst (snd (ProgressLog env p sess dry order started w))) = p"
  "latest_path (fst (snd (ProgressLog env p sess dry order started w))) = (fst p, ''latest.json'')"
  by (simp_all add: ProgressLog_def split_def Let_def)

lemma ProgressLog_world:
  "invoked (snd (snd (ProgressLog env p sess dry order (Some t) w))) = invoked w"
  "writes (snd (snd (ProgressLog env p sess dry order (Some t) w))) = Suc (writes w)"
  by (simp_all add: ProgressLog_def split_def Let_def)

lemma fail_step_world:
  "invoked (snd (snd (fail_step env s msg pl w))) = invoked w"
  by (simp add: fail_step_def complete_step_world)

lemma handle_failure_invoked:
  "invoked (snd (handle_failure env exc cur pl w)) = invoked w"
  by (simp add: handle_failure_def split_def Let_def finish_world fail_step_world split: option.splits)

lemma write_exn_ok: "\<forall>n. write_result env n = WriteOk \<Longrightarrow> write_exn env m = None"
  by (simp add: write_exn_def)

lemma ProgressLogE:
  assumes "ProgressLog env p sess dry order (Some t) w = (r, pl, w1)"
  shows "r = write_exn env (writes w)"
    and "statuses pl = []" and "active_starts pl = []" and "d_steps (data pl) = []"
    and "d_run_order (data pl) = order"
    and "invoked w1 = invoked w"
proof -
  have r: "r = fst (ProgressLog env p sess dry order (Some t) w)"
    and p: "pl = fst (snd (ProgressLog env p sess dry order (Some t) w))"
    and w: "w1 = snd (snd (ProgressLog env p sess dry order (Some t) w))"
    using assms by simp_all
  show "r = write_exn env (writes w)" unfolding r by (rule ProgressLog_fst)
  show "statuses pl = []" unfolding p by (simp add: statuses_def ProgressLog_pl)
  show "active_starts pl = []" unfolding p by (simp add: ProgressLog_pl)
  show "d_steps (data pl) = []" unfolding p by (simp add: ProgressLog_pl)
  show "d_run_order (data pl) = order" unfolding p by (simp add: ProgressLog_pl)
  show "invoked w1 = invoked w" unfolding w by (rule ProgressLog_world)
qed

lemma finish_no_pendingE:
  assumes "finish env st msg pl w = (r, pl1, w1)" and "active_starts pl = []"
  shows "r = write_exn env (writes w)"
    and "d_steps (data pl1) = d_steps (data pl)" and "d_status (data pl1) = st"
    and "active_starts pl1 = []" and "invoked w1 = invoked w"
proof -
  have r: "r = fst (finish env st msg pl w)" and p: "pl1 = fst (snd (finish env st msg pl w))"
    and w: "w1 = snd (snd (finish env st msg pl w))"
    using assms(1) by simp_all
  show "r = write_exn env (writes w)" unfolding r using assms(2) by (rule finish_no_pending_fst)
  show "d_steps (data pl1) = d_steps (data pl)" unfolding p by (simp add: finish_no_pending_pl assms(2))
  show "d_status (data pl1) = st" unfolding p by (simp add: finish_no_pending_pl assms(2))
  show "active_starts pl1 = []" unfolding p by (simp add: finish_no_pending_pl assms(2))
  show "invoked w1 = invoked w" unfolding w by (rule finish_world)
qed

lemma finally_outcome_Raised [simp]: "finally_outcome env (Raised e) \<noteq> Returned"
  by (simp add: finally_outcome_def split: option.splits)

lemma finally_outcome_quiet: "log_close_result env = None \<Longrightarrow> finally_outcome env out = out"
  by (simp add: finally_outcome_def)

lemma execute_dry:
  assumes ex: "execute cfg env order True w0 = (out, plo, w')"
  shows "invoked w' = invoked w0
       \<and> (out = Returned \<or> (\<forall>n. write_result env n = WriteOk) \<longrightarrow>
            (\<exists>pl. plo = Some pl \<and> statuses pl = map (\<lambda>s. (s, ''planned'')) order
                  \<and> d_status (data pl) = ''dry_run''))
       \<and> ((\<forall>n. write_result env n = WriteOk) \<and> log_close_result env = None \<longrightarrow> out = Returned)"
proof -
  define t0 where "t0 = clock env (ticks w0)"
  define w1 where "w1 = w0\<lparr>ticks := Suc (ticks w0)\<rparr>"
  define sn where "sn = ''run_'' @ strftime env t0 @ ''_dryrun''"
  define dir where "dir = root cfg @ ''/outputs/run_history''"
  obtain r0 p0 w2 where init: "ProgressLog env (dir, sn @ ''.json'') sn True order (Some t0) w1 = (r0, p0, w2)"
    by (cases "ProgressLog env (dir, sn @ ''.json'') sn True order (Some t0) w1")
  note i = ProgressLogE [OF init]
  have inv1: "invoked w1 = invoked w0" "writes w1 = writes w0" by (simp_all add: w1_def)
  show ?thesis
  proof (cases r0)
    case (Some e)
    then have "out = Raised e" "w' = w2"
      using ex init by (simp_all add: execute_def Let_def now_def t0_def w1_def sn_def dir_def)
    moreover have nok: "\<not> (\<forall>n. write_result env n = WriteOk)"
      using Some i(1) write_exn_ok [of env "writes w1"] by auto
    ultimately show ?thesis using i(6) inv1 by (simp add: nok)
  next
    case None
    define w4 where "w4 = log_msg ''INFO'' (''Run started (dry_run=True): '' @ join '', '' order)
                             (add_handler (dir, sn @ ''.log'') w2)"
    have inv4: "invoked w4 = invoked w0" by (simp add: w4_def i(6) inv1)
    obtain r1 p1 w5 where pl: "plan_loop env order p0 w4 = (r1, p1, w5)"
      by (cases "plan_loop env order p0 w4")
    from plan_loop_props [OF pl] obtain n where pp: "invoked w5 = invoked w4"
        "active_starts p1 = active_starts p0" "n \<le> length order"
        "statuses p1 = statuses p0 @ map (\<lambda>s. (s, ''planned'')) (take n order)"
        "r1 = None \<longrightarrow> n = length order"
      by blast
    show ?thesis
    proof (cases r1)
      case (Some e)
      obtain p6 w6 where hf: "handle_failure env e None p1 w5 = (p6, w6)"
        by (cases "handle_failure env e None p1 w5")
      have "invoked w6 = invoked w5" using handle_failure_invoked [of env e None p1 w5] hf by simp
      moreover have "out = finally_outcome env (Raised e)" "w' = remove_handler (dir, sn @ ''.log'') w6"
        using ex init pl hf Some \<open>r0 = None\<close>
        by (simp_all add: execute_def Let_def now_def t0_def w1_def sn_def dir_def w4_def)
      moreover have nok: "\<not> (\<forall>n. write_result env n = WriteOk)"
        using Some plan_loop_ok [of env order p0 w4] pl by auto
      ultimately show ?thesis using pp(1) inv4 by (simp add: nok)
    next
      case None
      obtain r2 p2 w7 where fin: "finish env ''dry_run'' None p1 w5 = (r2, p2, w7)"
        by (cases "finish env ''dry_run'' None p1 w5")
      have a1: "active_starts p1 = []" using pp(2) i(3) by simp
      note f = finish_no_pendingE [OF fin a1]
      have st: "statuses p2 = map (\<lambda>s. (s, ''planned'')) order"
        using pp(4,5) None i(2) f(2) by (simp add: statuses_def)
      show ?thesis
      proof (cases r2)
        case (Some e)
        obtain p6 w6 where hf: "handle_failure env e None p2 w7 = (p6, w6)"
          by (cases "handle_failure env e None p2 w7")
        have "invoked w6 = invoked w7" using handle_failure_invoked [of env e None p2 w7] hf by simp
        moreover have "out = finally_outcome env (Raised e)" "w' = remove_handler (dir, sn @ ''.log'') w6"
          using ex init pl fin hf Some \<open>r0 = None\<close> \<open>r1 = None\<close>
          by (simp_all add: execute_def Let_def now_def t0_def w1_def sn_def dir_def w4_def)
        moreover have nok: "\<not> (\<forall>n. write_result env n = WriteOk)"
          using Some f(1) write_exn_ok [of env "writes w5"] by auto
        ultimately show ?thesis using pp(1) inv4 f(5) by (simp add: nok)
      next
        case None
        have "out = finally_outcome env Returned" "plo = Some p2"
             "w' = remove_handler (dir, sn @ ''.log'') (log_msg ''INFO'' ''Dry run complete'' w7)"
          using ex init pl fin None \<open>r0 = None\<close> \<open>r1 = None\<close>
          by (simp_all add: execute_def Let_def now_def t0_def w1_def sn_def dir_def w4_def)
        then show ?thesis using st f(3,5) pp(1) inv4 by (simp add: finally_outcome_quiet)
      qed
    qed
  qed
qed

lemma run_order_is_run:
  "run_order_is cfg selected order \<Longrightarrow> run cfg env selected dry w = execute cfg env order dry w"
  by (auto simp: run_order_is_def run_def split: option.splits)

text \<open>
  C3.  A dry run over a resolved run order calls no handler.  When it returns, and also
  whenever no write of the progress files fails, the session holds one \<open>planned\<close> entry
  per step of the run order, in that order, and nothing else, and its status is
  \<open>dry_run\<close>.  It does return when no write of the progress files fails and the log
  closes.
\<close>

theorem dry_run_plans_only:
  assumes "run_order_is cfg selected order"
    and "run cfg env selected True w = (out, plo, w')"
  shows "invoked w' = invoked w
       \<and> (out = Returned \<or> (\<forall>n. write_result env n = WriteOk) \<longrightarrow>
            (\<exists>pl. plo = Some pl \<and> statuses pl = map (\<lambda>s. (s, ''planned'')) order
                  \<and> d_status (data pl) = ''dry_run''))
       \<and> ((\<forall>n. write_result env n = WriteOk) \<and> log_close_result env = None \<longrightarrow> out = Returned)"
proof -
  have "execute cfg env order True w = (out, plo, w')"
    using assms run_order_is_run by simp
  then show ?thesis by (rule execute_dry)
qed

lemma start_stepE:
  assumes "start_step env s pl w = (r, pl1, w1)"
  shows "r = write_exn env (writes w)"
    and "d_steps (data pl1) = d_steps (data pl) @ [running_entry env s (clock env (ticks w))]"
    and "active_starts pl1 = dict_set (active_starts pl) s (clock env (ticks w))"
    and "invoked w1 = invoked w"
proof -
  have r: "r = fst (start_step env s pl w)" and p: "pl1 = fst (snd (start_step env s pl w))"
    and w: "w1 = snd (snd (start_step env s pl w))"
    using assms by simp_all
  show "r = write_exn env (writes w)" unfolding r by (rule start_step_fst)
  show "d_steps (data pl1) = d_steps (data pl) @ [running_entry env s (clock env (ticks w))]"
    unfolding p by (simp add: start_step_pl)
  show "active_starts pl1 = dict_set (active_starts pl) s (clock env (ticks w))"
    unfolding p by (simp add: start_step_pl)
  show "invoked w1 = invoked w" unfolding w by (rule start_step_world)
qed

lemma running_entry_matches: "entry_matches s (running_entry env s t)"
  by (simp add: entry_matches_def running_entry_def)

lemma complete_lastE:
  assumes "complete_step env s st msg pl w = (r, pl1, w1)"
    and "d_steps (data pl) = es @ [e]" and "entry_matches s e"
  shows "r = write_exn env (writes w)"
    and "d_steps (data pl1)
           = es @ [completed_entry env st msg (clock env (ticks w)) (map_of (active_starts pl) s) e]"
    and "active_starts pl1 = filter (\<lambda>kv. fst kv \<noteq> s) (active_starts pl)"
    and "invoked w1 = invoked w"
    and "d_status (data pl1) = d_status (data pl)"
proof -
  have found: "find_step_entry env s (d_steps (data pl)) = Inr (length es)"
    using assms(2,3) by (simp add: find_step_entry_last)
  have r: "r = fst (complete_step env s st msg pl w)"
    and p: "pl1 = fst (snd (complete_step env s st msg pl w))"
    and w: "w1 = snd (snd (complete_step env s st msg pl w))"
    using assms(1) by simp_all
  show "r = write_exn env (writes w)" unfolding r using found by (rule complete_step_fst)
  show "d_steps (data pl1)
           = es @ [completed_entry env st msg (clock env (ticks w)) (map_of (active_starts pl) s) e]"
    unfolding p by (simp add: complete_step_pl [OF found] assms(2))
  show "active_starts pl1 = filter (\<lambda>kv. fst kv \<noteq> s) (active_starts pl)"
    unfolding p by (simp add: complete_step_pl [OF found])
  show "invoked w1 = invoked w" unfolding w by (rule complete_step_world)
  show "d_status (data pl1) = d_status (data pl)"
    unfolding p by (simp add: complete_step_pl [OF found])
qed

lemma live_loop_props:
  assumes "live_loop env ss cur pl w = (r, cur', pl', w')" and "active_starts pl = []"
  shows "\<exists>hs. invoked w' = invoked w @ hs \<and>
          ((\<forall>s\<in>set hs. handler env s = None)
           \<or> (\<exists>j<length ss. hs = take (Suc j) ss \<and> (\<forall>i<j. handler env (ss ! i) = None)
                 \<and> handler env (ss ! j) = r \<and> r \<noteq> None \<and> cur' = Some (ss ! j)
                 \<and> (\<exists>es t. d_steps (data pl') = es @ [running_entry env (ss ! j) t]
                        \<and> active_starts pl' = [(ss ! j, t)]
                        \<and> map entry_summary es
                            = summary pl @ map (\<lambda>s. (s, ''completed'', None)) (take j ss))))"
  using assms
proof (induction ss arbitrary: cur pl w)
  case Nil
  then have "invoked w' = invoked w @ [] \<and> (\<forall>s\<in>set []. handler env s = None)" by simp
  then show ?case by (intro exI [of _ "[]"] conjI disjI1) simp_all
next
  case (Cons s ss)
  obtain r1 pl1 w1 where st: "start_step env s pl w = (r1, pl1, w1)"
    by (cases "start_step env s pl w")
  note f = start_stepE [OF st]
  have act1: "active_starts pl1 = [(s, clock env (ticks w))]"
    using f(3) Cons.prems(2) by simp
  have quiet: ?case if "invoked w' = invoked w"
  proof -
    have "invoked w' = invoked w @ [] \<and> (\<forall>s\<in>set []. handler env s = None)" using that by simp
    then show ?thesis by (intro exI [of _ "[]"] conjI disjI1) simp_all
  qed
  show ?case
  proof (cases r1)
    case (Some e)
    then have "w' = w1" using Cons.prems(1) st by simp
    then show ?thesis using f(4) quiet by simp
  next
    case None
    show ?thesis
    proof (cases "s \<in> set STEP_FUNCTIONS")
      case False
      then have "w' = w1" using Cons.prems(1) st None by simp
      then show ?thesis using f(4) quiet by simp
    next
      case True
      define w2 where "w2 = w1\<lparr>invoked := invoked w1 @ [s]\<rparr>"
      have inv2: "invoked w2 = invoked w @ [s]" by (simp add: w2_def f(4))
      show ?thesis
      proof (cases "handler env s")
        case (Some e)
        then have res: "r = Some e" "cur' = Some s" "pl' = pl1" "w' = w2"
          using Cons.prems(1) st None True by (simp_all add: w2_def Let_def)
        have "0 < length (s # ss)" by simp
        moreover have "[s] = take (Suc 0) (s # ss)" by simp
        moreover have "\<forall>i<0. handler env ((s # ss) ! i) = None" by simp
        moreover have "handler env ((s # ss) ! 0) = r" "r \<noteq> None" "cur' = Some ((s # ss) ! 0)"
          using Some res by simp_all
        moreover have "d_steps (data pl') = d_steps (data pl) @ [running_entry env ((s # ss) ! 0) (clock env (ticks w))]"
          "active_starts pl' = [((s # ss) ! 0, clock env (ticks w))]"
          "map entry_summary (d_steps (data pl))
             = summary pl @ map (\<lambda>s. (s, ''completed'', None)) (take 0 (s # ss))"
          using res f(2) act1 by (simp_all add: summary_def)
        ultimately show ?thesis using inv2 res(4) by blast
      next
        case hnone: None
        obtain r3 pl3 w3 where cs: "complete_step env s ''completed'' None pl1 w2 = (r3, pl3, w3)"
          by (cases "complete_step env s ''completed'' None pl1 w2")
        note c = complete_lastE [OF cs f(2) running_entry_matches]
        have inv3: "invoked w3 = invoked w @ [s]" using c(4) inv2 by simp
        have act3: "active_starts pl3 = []" using c(3) act1 by simp
        have sum3: "summary pl3 = summary pl @ [(s, ''completed'', None)]"
          using c(2) by (simp add: summary_def entry_summary_def is_set_def running_entry_def)
        show ?thesis
        proof (cases r3)
          case (Some e)
          then have "w' = w3" using Cons.prems(1) st None True hnone cs
            by (simp add: w2_def Let_def)
          then have "invoked w' = invoked w @ [s]" using inv3 by simp
          moreover have "\<forall>x\<in>set [s]. handler env x = None" using hnone by simp
          ultimately show ?thesis by blast
        next
          case rnone: None
          have rec: "live_loop env ss (Some s) pl3 w3 = (r, cur', pl', w')"
            using Cons.prems(1) st None True hnone cs rnone by (simp add: w2_def Let_def)
          from Cons.IH [OF rec act3] obtain hs where hs: "invoked w' = invoked w3 @ hs"
            and alt: "(\<forall>s\<in>set hs. handler env s = None)
               \<or> (\<exists>j<length ss. hs = take (Suc j) ss \<and> (\<forall>i<j. handler env (ss ! i) = None)
                 \<and> handler env (ss ! j) = r \<and> r \<noteq> None \<and> cur' = Some (ss ! j)
                 \<and> (\<exists>es t. d_steps (data pl') = es @ [running_entry env (ss ! j) t]
                        \<and> active_starts pl' = [(ss ! j, t)]
                        \<and> map entry_summary es
                            = summary pl3 @ map (\<lambda>s. (s, ''completed'', None)) (take j ss)))"
            by blast
          have inv: "invoked w' = invoked w @ (s # hs)" using hs inv3 by simp
          from alt show ?thesis
          proof
            assume "\<forall>s\<in>set hs. handler env s = None"
            then have "\<forall>x\<in>set (s # hs). handler env x = None" using hnone by simp
            then show ?thesis using inv by blast
          next
            assume "\<exists>j<length ss. hs = take (Suc j) ss \<and> (\<forall>i<j. handler env (ss ! i) = None)
                 \<and> handler env (ss ! j) = r \<and> r \<noteq> None \<and> cur' = Some (ss ! j)
                 \<and> (\<exists>es t. d_steps (data pl') = es @ [running_entry env (ss ! j) t]
                        \<and> active_starts pl' = [(ss ! j, t)]
                        \<and> map entry_summary es
                            = summary pl3 @ map (\<lambda>s. (s, ''completed'', None)) (take j ss))"
            then obtain j es t where j: "j < length ss" "hs = take (Suc j) ss"
                "\<forall>i<j. handler env (ss ! i) = None" "handler env (ss ! j) = r" "r \<noteq> None"
                "cur' = Some (ss ! j)" "d_steps (data pl') = es @ [running_entry env (ss ! j) t]"
                "active_starts pl' = [(ss ! j, t)]"
                "map entry_summary es = summary pl3 @ map (\<lambda>s. (s, ''completed'', None)) (take j ss)"
              by blast
            have "Suc j < length (s # ss)" using j(1) by simp
            moreover have "s # hs = take (Suc (Suc j)) (s # ss)" using j(2) by simp
            moreover have "\<forall>i<Suc j. handler env ((s # ss) ! i) = None"
              using j(3) hnone by (auto simp: less_Suc_eq_0_disj)
            moreover have "handler env ((s # ss) ! Suc j) = r" "r \<noteq> None"
                "cur' = Some ((s # ss) ! Suc j)"
              using j(4,5,6) by simp_all
            moreover have "d_steps (data pl') = es @ [running_entry env ((s # ss) ! Suc j) t]"
                "active_starts pl' = [((s # ss) ! Suc j, t)]"
              using j(7,8) by simp_all
            moreover have "map entry_summary es
                = summary pl @ map (\<lambda>s. (s, ''completed'', None)) (take (Suc j) (s # ss))"
              using j(9) sum3 by simp
            ultimately show ?thesis using inv by blast
          qed
        qed
      qed
    qed
  qed
qed

lemma handle_failure_running:
  assumes hf: "handle_failure env exc (Some s) pl w = (pl', w')"
    and steps: "d_steps (data pl) = es @ [running_entry env s t]"
    and act: "active_starts pl = [(s, t)]"
  shows "summary pl' = map entry_summary es
           @ [(s, ''failed'', if str_exn env exc = [] then None else Some (str_exn env exc))]"
    and "d_status (data pl') = ''failed''"
proof -
  obtain rf pf wf where fs: "complete_step env s ''failed'' (Some (str_exn env exc)) pl w = (rf, pf, wf)"
    by (cases "complete_step env s ''failed'' (Some (str_exn env exc)) pl w")
  note c = complete_lastE [OF fs steps running_entry_matches]
  have actf: "active_starts pf = []" using c(3) act by simp
  obtain r2 p2 w2 where fin: "finish env ''failed'' (Some (str_exn env exc)) pf wf = (r2, p2, w2)"
    by (cases "finish env ''failed'' (Some (str_exn env exc)) pf wf")
  note f = finish_no_pendingE [OF fin actf]
  have "pl' = p2" using hf fs fin by (simp add: handle_failure_def fail_step_def)
  then show "summary pl' = map entry_summary es
           @ [(s, ''failed'', if str_exn env exc = [] then None else Some (str_exn env exc))]"
    and "d_status (data pl') = ''failed''"
    using f(2,3) c(2) by (simp_all add: summary_def entry_summary_def is_set_def running_entry_def)
qed

lemma execute_live:
  assumes ex: "execute cfg env order False w0 = (out, plo, w')"
  shows "\<exists>hs. invoked w' = invoked w0 @ hs \<and>
          ((\<forall>s\<in>set hs. handler env s = None)
           \<or> (\<exists>j<length order. \<exists>E. hs = take (Suc j) order
                 \<and> (\<forall>i<j. handler env (order ! i) = None)
                 \<and> handler env (order ! j) = Some E \<and> out = finally_outcome env (Raised E)
                 \<and> (\<exists>pl. plo = Some pl
                       \<and> summary pl = map (\<lambda>s. (s, ''completed'', None)) (take j order)
                            @ [(order ! j, ''failed'',
                                if str_exn env E = [] then None else Some (str_exn env E))]
                       \<and> d_status (data pl) = ''failed'')))"
proof -
  define t0 where "t0 = clock env (ticks w0)"
  define w1 where "w1 = w0\<lparr>ticks := Suc (ticks w0)\<rparr>"
  define sn where "sn = ''run_'' @ strftime env t0"
  define dir where "dir = root cfg @ ''/outputs/run_history''"
  obtain r0 p0 w2 where init: "ProgressLog env (dir, sn @ ''.json'') sn False order (Some t0) w1 = (r0, p0, w2)"
    by (cases "ProgressLog env (dir, sn @ ''.json'') sn False order (Some t0) w1")
  note i = ProgressLogE [OF init]
  have inv1: "invoked w1 = invoked w0" by (simp add: w1_def)
  have quiet: ?thesis if "invoked w' = invoked w0"
  proof -
    have "invoked w' = invoked w0 @ [] \<and> (\<forall>s\<in>set []. handler env s = None)" using that by simp
    then show ?thesis by (intro exI [of _ "[]"] conjI disjI1) simp_all
  qed
  show ?thesis
  proof (cases r0)
    case (Some e)
    then have "w' = w2"
      using ex init by (simp add: execute_def Let_def now_def t0_def w1_def sn_def dir_def)
    then show ?thesis using i(6) inv1 quiet by simp
  next
    case None
    define w4 where "w4 = log_msg ''INFO'' (''Run started (dry_run=False): '' @ join '', '' order)
                             (add_handler (dir, sn @ ''.log'') w2)"
    have inv4: "invoked w4 = invoked w0" by (simp add: w4_def i(6) inv1)
    obtain r1 cur p1 w5 where ll: "live_loop env order None p0 w4 = (r1, cur, p1, w5)"
      by (cases "live_loop env order None p0 w4")
    from live_loop_props [OF ll i(3)] obtain hs where hs: "invoked w5 = invoked w0 @ hs"
      and alt: "(\<forall>s\<in>set hs. handler env s = None)
           \<or> (\<exists>j<length order. hs = take (Suc j) order \<and> (\<forall>i<j. handler env (order ! i) = None)
                 \<and> handler env (order ! j) = r1 \<and> r1 \<noteq> None \<and> cur = Some (order ! j)
                 \<and> (\<exists>es t. d_steps (data p1) = es @ [running_entry env (order ! j) t]
                        \<and> active_starts p1 = [(order ! j, t)]
                        \<and> map entry_summary es
                            = summary p0 @ map (\<lambda>s. (s, ''completed'', None)) (take j order)))"
      using inv4 by auto
    have sum0: "summary p0 = []" using i(4) by (simp add: summary_def)
    have inv': "invoked w' = invoked w0 @ hs"
    proof (cases r1)
      case (Some e)
      obtain p6 w6 where hf: "handle_failure env e cur p1 w5 = (p6, w6)"
        by (cases "handle_failure env e cur p1 w5")
      have "invoked w6 = invoked w5" using handle_failure_invoked [of env e cur p1 w5] hf by simp
      moreover have "w' = remove_handler (dir, sn @ ''.log'') w6"
        using ex init ll hf Some \<open>r0 = None\<close>
        by (simp add: execute_def Let_def now_def t0_def w1_def sn_def dir_def w4_def)
      ultimately show ?thesis using hs by simp
    next
      case None
      obtain r2 p2 w7 where fin: "finish env ''completed'' None p1 w5 = (r2, p2, w7)"
        by (cases "finish env ''completed'' None p1 w5")
      have i7: "invoked w7 = invoked w5" using finish_world(1) [of env "''completed''" None p1 w5] fin by simp
      show ?thesis
      proof (cases r2)
        case (Some e)
        obtain p6 w6 where hf: "handle_failure env e cur p2 w7 = (p6, w6)"
          by (cases "handle_failure env e cur p2 w7")
        have "invoked w6 = invoked w7" using handle_failure_invoked [of env e cur p2 w7] hf by simp
        moreover have "w' = remove_handler (dir, sn @ ''.log'') w6"
          using ex init ll fin hf Some \<open>r0 = None\<close> \<open>r1 = None\<close>
          by (simp add: execute_def Let_def now_def t0_def w1_def sn_def dir_def w4_def)
        ultimately show ?thesis using hs i7 by simp
      next
        case None
        have "w' = remove_handler (dir, sn @ ''.log'') (log_msg ''INFO'' ''Run complete'' w7)"
          using ex init ll fin None \<open>r0 = None\<close> \<open>r1 = None\<close>
          by (simp add: execute_def Let_def now_def t0_def w1_def sn_def dir_def w4_def)
        then show ?thesis using hs i7 by simp
      qed
    qed
    from alt show ?thesis
    proof
      assume "\<forall>s\<in>set hs. handler env s = None"
      then show ?thesis using inv' by blast
    next
      assume "\<exists>j<length order. hs = take (Suc j) order \<and> (\<forall>i<j. handler env (order ! i) = None)
                 \<and> handler env (order ! j) = r1 \<and> r1 \<noteq> None \<and> cur = Some (order ! j)
                 \<and> (\<exists>es t. d_steps (data p1) = es @ [running_entry env (order ! j) t]
                        \<and> active_starts p1 = [(order ! j, t)]
                        \<and> map entry_summary es
                            = summary p0 @ map (\<lambda>s. (s, ''completed'', None)) (take j order))"
      then obtain j es t where j: "j < length order" "hs = take (Suc j) order"
          "\<forall>i<j. handler env (order ! i) = None" "handler env (order ! j) = r1" "r1 \<noteq> None"
          "cur = Some (order ! j)" "d_steps (data p1) = es @ [running_entry env (order ! j) t]"
          "active_starts p1 = [(order ! j, t)]"
          "map entry_summary es = summary p0 @ map (\<lambda>s. (s, ''completed'', None)) (take j order)"
        by blast
      from j(5) obtain E where E: "r1 = Some E" by auto
      obtain p6 w6 where hf: "handle_failure env E (Some (order ! j)) p1 w5 = (p6, w6)"
        by (cases "handle_failure env E (Some (order ! j)) p1 w5")
      note h = handle_failure_running [OF hf j(7,8)]
      have res: "out = finally_outcome env (Raised E)" "plo = Some p6"
        using ex init ll hf E j(6) \<open>r0 = None\<close>
        by (simp_all add: execute_def Let_def now_def t0_def w1_def sn_def dir_def w4_def)
      have sum6: "summary p6 = map (\<lambda>s. (s, ''completed'', None)) (take j order)
                    @ [(order ! j, ''failed'', if str_exn env E = [] then None else Some (str_exn env E))]"
        using h(1) j(9) sum0 by simp
      have "\<exists>pl. plo = Some pl
               \<and> summary pl = map (\<lambda>s. (s, ''completed'', None)) (take j order)
                    @ [(order ! j, ''failed'', if str_exn env E = [] then None else Some (str_exn env E))]
               \<and> d_status (data pl) = ''failed''"
        using res(2) sum6 h(2) by simp
      then show ?thesis using inv' j(1,2,3,4) E res(1) by blast
    qed
  qed
qed

lemma run_cases:
  assumes "run cfg env selected dry w = (out, plo, w')"
  shows "invoked w' = invoked w
       \<or> (\<exists>order. run_order_is cfg selected order \<and> execute cfg env order dry w = (out, plo, w'))"
  using assms
  by (auto simp: run_def run_order_is_def split: option.splits sum.splits if_splits)

lemma distinct_configured: "configured_steps cfg = Inr order \<Longrightarrow> distinct order"
proof -
  assume a: "configured_steps cfg = Inr order"
  have d: "distinct (map fst STEP_SEQUENCE)" by (simp add: STEP_SEQUENCE_def)
  from a obtain steps_cfg where "order = configured_loop steps_cfg STEP_SEQUENCE []"
    by (auto simp: configured_steps_def split: yaml.splits)
  then have "order = map fst (filter (\<lambda>(primary, legacy). block_exists steps_cfg primary
                                           \<or> block_exists steps_cfg legacy) STEP_SEQUENCE)"
    using configured_loop_eq [OF STEP_SEQUENCE_legacy, of steps_cfg "[]"] by simp
  then show ?thesis using d by (simp add: distinct_map_filter)
qed

lemma run_order_is_distinct: "run_order_is cfg selected order \<Longrightarrow> distinct order"
proof (cases selected)
  case None
  assume "run_order_is cfg selected order"
  then show ?thesis using None by (simp add: run_order_is_def distinct_configured)
next
  case (Some tokens)
  assume "run_order_is cfg selected order"
  then have "resolve_selection tokens = Inr order" using Some by (simp add: run_order_is_def)
  then have "order = dedupe (map resolve_alias (selected_list_of tokens)) {} []"
    by (rule resolve_selection_Inr)
  then show ?thesis by (simp add: distinct_dedupe)
qed

lemma run_live_shape:
  assumes ro: "run_order_is cfg selected order"
    and run: "run cfg env selected False w = (out, plo, w')"
    and k: "k < length order"
    and inv: "order ! k \<in> set (drop (length (invoked w)) (invoked w'))"
    and h: "handler env (order ! k) = Some E"
  shows "invoked w' = invoked w @ take (Suc k) order
       \<and> out = finally_outcome env (Raised E)
       \<and> (\<exists>pl. plo = Some pl
             \<and> summary pl = map (\<lambda>s. (s, ''completed'', None)) (take k order)
                  @ [(order ! k, ''failed'', if str_exn env E = [] then None else Some (str_exn env E))]
             \<and> d_status (data pl) = ''failed'')"
proof -
  have ex: "execute cfg env order False w = (out, plo, w')"
    using ro run run_order_is_run by simp
  from execute_live [OF ex] obtain hs where hs: "invoked w' = invoked w @ hs"
    and alt: "(\<forall>s\<in>set hs. handler env s = None)
           \<or> (\<exists>j<length order. \<exists>E. hs = take (Suc j) order
                 \<and> (\<forall>i<j. handler env (order ! i) = None)
                 \<and> handler env (order ! j) = Some E \<and> out = finally_outcome env (Raised E)
                 \<and> (\<exists>pl. plo = Some pl
                       \<and> summary pl = map (\<lambda>s. (s, ''completed'', None)) (take j order)
                            @ [(order ! j, ''failed'',
                                if str_exn env E = [] then None else Some (str_exn env E))]
                       \<and> d_status (data pl) = ''failed''))"
    by blast
  have mem: "order ! k \<in> set hs" using inv hs by simp
  then have "\<not> (\<forall>s\<in>set hs. handler env s = None)" using h by auto
  with alt obtain j E' where j: "j < length order" "hs = take (Suc j) order"
      "\<forall>i<j. handler env (order ! i) = None" "handler env (order ! j) = Some E'" "out = finally_outcome env (Raised E')"
      "\<exists>pl. plo = Some pl
           \<and> summary pl = map (\<lambda>s. (s, ''completed'', None)) (take j order)
                @ [(order ! j, ''failed'', if str_exn env E' = [] then None else Some (str_exn env E'))]
           \<and> d_status (data pl) = ''failed''"
    by blast
  from mem j(2) obtain i where i: "i < Suc j" "order ! k = order ! i"
    using j(1) by (auto simp: in_set_conv_nth)
  have "i = j" using i j(3) h by (cases "i < j") auto
  then have "order ! k = order ! j" using i(2) by simp
  then have "k = j"
    using run_order_is_distinct [OF ro] k j(1) by (simp add: nth_eq_iff_index_eq)
  then show ?thesis using hs j h by auto
qed

lemma run_live_reraises:
  assumes run: "run cfg env selected False w = (out, plo, w')"
    and inv: "s \<in> set (drop (length (invoked w)) (invoked w'))"
    and h: "handler env s = Some E"
  shows "out = finally_outcome env (Raised E)"
proof -
  from run_cases [OF run] inv obtain order where
    ex: "execute cfg env order False w = (out, plo, w')"
    by auto
  from execute_live [OF ex] obtain hs where hs: "invoked w' = invoked w @ hs"
    and alt: "(\<forall>s\<in>set hs. handler env s = None)
           \<or> (\<exists>j<length order. \<exists>E. hs = take (Suc j) order
                 \<and> (\<forall>i<j. handler env (order ! i) = None)
                 \<and> handler env (order ! j) = Some E \<and> out = finally_outcome env (Raised E))"
    by blast
  have mem: "s \<in> set hs" using inv hs by simp
  then have "\<not> (\<forall>s\<in>set hs. handler env s = None)" using h by auto
  with alt obtain j E' where j: "j < length order" "hs = take (Suc j) order"
      "\<forall>i<j. handler env (order ! i) = None" "handler env (order ! j) = Some E'" "out = finally_outcome env (Raised E')"
    by blast
  from mem j(2) obtain i where i: "i < Suc j" "s = order ! i"
    using j(1) by (auto simp: in_set_conv_nth)
  have "i = j" using i j(3) h by (cases "i < j") auto
  then show ?thesis using i(2) j(4,5) h by simp
qed

lemma start_step_writes: "writes (snd (snd (start_step env s pl w))) = Suc (writes w)"
  by (rule start_step_world)

lemma complete_step_writes:
  "find_step_entry env s (d_steps (data pl)) = Inr i \<Longrightarrow>
   writes (snd (snd (complete_step env s st msg pl w))) = Suc (writes w)"
  by (simp add: complete_step_def now_def split_def Let_def)

lemma live_loop_reaches:
  assumes "\<forall>n < writes w + 2 * j + 1. write_result env n = WriteOk"
    and "set ss \<subseteq> set STEP_FUNCTIONS" and "j < length ss"
    and "\<forall>i<j. handler env (ss ! i) = None" and "handler env (ss ! j) \<noteq> None"
    and "active_starts pl = []"
    and "live_loop env ss cur pl w = (r, cur', pl', w')"
  shows "invoked w' = invoked w @ take (Suc j) ss"
  using assms
proof (induction ss arbitrary: j cur pl w)
  case Nil
  then show ?case by simp
next
  case (Cons s ss)
  obtain r1 pl1 w1 where st: "start_step env s pl w = (r1, pl1, w1)"
    by (cases "start_step env s pl w")
  note f = start_stepE [OF st]
  have wr1: "writes w1 = Suc (writes w)" using start_step_writes [of env s pl w] st by simp
  have r1: "r1 = None" using f(1) Cons.prems(1) by (simp add: write_exn_def)
  have mem: "s \<in> set STEP_FUNCTIONS" using Cons.prems(2) by simp
  have act1: "active_starts pl1 = [(s, clock env (ticks w))]" using f(3) Cons.prems(6) by simp
  define w2 where "w2 = w1\<lparr>invoked := invoked w1 @ [s]\<rparr>"
  have inv2: "invoked w2 = invoked w @ [s]" by (simp add: w2_def f(4))
  show ?case
  proof (cases j)
    case 0
    then obtain e where "handler env s = Some e" using Cons.prems(5) by auto
    then have "w' = w2" using Cons.prems(7) st r1 mem by (simp add: w2_def Let_def)
    then show ?thesis using inv2 0 by simp
  next
    case (Suc j')
    have hnone: "handler env s = None" using Cons.prems(4) Suc by auto
    obtain r3 pl3 w3 where cs: "complete_step env s ''completed'' None pl1 w2 = (r3, pl3, w3)"
      by (cases "complete_step env s ''completed'' None pl1 w2")
    note c = complete_lastE [OF cs f(2) running_entry_matches]
    have found: "find_step_entry env s (d_steps (data pl1)) = Inr (length (d_steps (data pl)))"
      using f(2) by (simp add: find_step_entry_last running_entry_matches)
    have wr3: "writes w3 = Suc (Suc (writes w))"
      using complete_step_writes [OF found, of "''completed''" None w2] cs wr1 by (simp add: w2_def)
    have "writes w2 = Suc (writes w)" using wr1 by (simp add: w2_def)
    then have r3: "r3 = None" using c(1) Cons.prems(1) Suc by (simp add: write_exn_def)
    have act3: "active_starts pl3 = []" using c(3) act1 by simp
    have rec: "live_loop env ss (Some s) pl3 w3 = (r, cur', pl', w')"
      using Cons.prems(7) st r1 mem hnone cs r3 by (simp add: w2_def Let_def)
    have ok': "\<forall>n < writes w3 + 2 * j' + 1. write_result env n = WriteOk"
      using Cons.prems(1) wr3 Suc by simp
    have sub': "set ss \<subseteq> set STEP_FUNCTIONS" using Cons.prems(2) by simp
    have j': "j' < length ss" using Cons.prems(3) Suc by simp
    have before': "\<forall>i<j'. handler env (ss ! i) = None"
    proof (intro allI impI)
      fix i assume "i < j'"
      then have "Suc i < j" using Suc by simp
      then have "handler env ((s # ss) ! Suc i) = None" using Cons.prems(4) by blast
      then show "handler env (ss ! i) = None" by simp
    qed
    have at': "handler env (ss ! j') \<noteq> None" using Cons.prems(5) Suc by simp
    have "invoked w' = invoked w3 @ take (Suc j') ss"
      by (rule Cons.IH [OF ok' sub' j' before' at' act3 rec])
    then show ?thesis using c(4) inv2 Suc by simp
  qed
qed

lemma execute_reaches:
  assumes ok: "\<forall>n < writes w0 + 2 * j + 2. write_result env n = WriteOk"
    and sub: "set order \<subseteq> set STEP_FUNCTIONS" and j: "j < length order"
    and before: "\<forall>i<j. handler env (order ! i) = None" and at: "handler env (order ! j) \<noteq> None"
    and ex: "execute cfg env order False w0 = (out, plo, w')"
  shows "invoked w' = invoked w0 @ take (Suc j) order"
proof -
  define t0 where "t0 = clock env (ticks w0)"
  define w1 where "w1 = w0\<lparr>ticks := Suc (ticks w0)\<rparr>"
  define sn where "sn = ''run_'' @ strftime env t0"
  define dir where "dir = root cfg @ ''/outputs/run_history''"
  obtain r0 p0 w2 where init: "ProgressLog env (dir, sn @ ''.json'') sn False order (Some t0) w1 = (r0, p0, w2)"
    by (cases "ProgressLog env (dir, sn @ ''.json'') sn False order (Some t0) w1")
  note i = ProgressLogE [OF init]
  have wr2: "writes w2 = Suc (writes w0)"
    using ProgressLog_world(2) [of env "(dir, sn @ ''.json'')" sn False order t0 w1] init
    by (simp add: w1_def)
  have r0: "r0 = None" using i(1) ok by (simp add: write_exn_def w1_def)
  define w4 where "w4 = log_msg ''INFO'' (''Run started (dry_run=False): '' @ join '', '' order)
                           (add_handler (dir, sn @ ''.log'') w2)"
  have inv4: "invoked w4 = invoked w0" by (simp add: w4_def i(6) w1_def)
  have wr4: "writes w4 = Suc (writes w0)" by (simp add: w4_def wr2)
  obtain r1 cur p1 w5 where ll: "live_loop env order None p0 w4 = (r1, cur, p1, w5)"
    by (cases "live_loop env order None p0 w4")
  have ok4: "\<forall>n < writes w4 + 2 * j + 1. write_result env n = WriteOk" using ok wr4 by simp
  have inv5: "invoked w5 = invoked w0 @ take (Suc j) order"
    using live_loop_reaches [OF ok4 sub j before at i(3) ll] inv4 by simp
  have "invoked w' = invoked w5"
  proof (cases r1)
    case (Some e)
    obtain p6 w6 where hf: "handle_failure env e cur p1 w5 = (p6, w6)"
      by (cases "handle_failure env e cur p1 w5")
    have "invoked w6 = invoked w5" using handle_failure_invoked [of env e cur p1 w5] hf by simp
    moreover have "w' = remove_handler (dir, sn @ ''.log'') w6"
      using ex init ll hf Some r0
      by (simp add: execute_def Let_def now_def t0_def w1_def sn_def dir_def w4_def)
    ultimately show ?thesis by simp
  next
    case None
    obtain r2 p2 w7 where fin: "finish env ''completed'' None p1 w5 = (r2, p2, w7)"
      by (cases "finish env ''completed'' None p1 w5")
    have i7: "invoked w7 = invoked w5" using finish_world(1) [of env "''completed''" None p1 w5] fin by simp
    show ?thesis
    proof (cases r2)
      case (Some e)
      obtain p6 w6 where hf: "handle_failure env e cur p2 w7 = (p6, w6)"
        by (cases "handle_failure env e cur p2 w7")
      have "invoked w6 = invoked w7" using handle_failure_invoked [of env e cur p2 w7] hf by simp
      moreover have "w' = remove_handler (dir, sn @ ''.log'') w6"
        using ex init ll fin hf Some r0 \<open>r1 = None\<close>
        by (simp add: execute_def Let_def now_def t0_def w1_def sn_def dir_def w4_def)
      ultimately show ?thesis using i7 by simp
    next
      case None
      have "w' = remove_handler (dir, sn @ ''.log'') (log_msg ''INFO'' ''Run complete'' w7)"
        using ex init ll fin None r0 \<open>r1 = None\<close>
        by (simp add: execute_def Let_def now_def t0_def w1_def sn_def dir_def w4_def)
      then show ?thesis using i7 by simp
    qed
  qed
  then show ?thesis using inv5 by simp
qed

lemma run_reaches:
  assumes "run_order_is cfg selected order"
    and "run cfg env selected False w = (out, plo, w')"
    and "\<forall>n < writes w + 2 * j + 2. write_result env n = WriteOk"
    and "set order \<subseteq> set STEP_FUNCTIONS" and "j < length order"
    and "\<forall>i<j. handler env (order ! i) = None" and "handler env (order ! j) \<noteq> None"
  shows "invoked w' = invoked w @ take (Suc j) order"
proof -
  have "execute cfg env order False w = (out, plo, w')"
    using assms(1,2) run_order_is_run by simp
  with assms(3-7) show ?thesis by (rule execute_reaches)
qed

lemma demo_run_order: "run_order_is demo_config demo_selection demo_order"
  unfolding run_order_is_def demo_selection_def demo_order_def by code_simp

lemma demo_order_known: "set demo_order \<subseteq> set STEP_FUNCTIONS"
  unfolding demo_order_def by code_simp

lemma demo_reaches:
  assumes "4 \<le> good"
  shows "invoked (snd (snd (run demo_config (failing_env msg good) demo_selection False demo_world)))
           = [''step01_filter_variants'', ''step13_pcoa'']"
proof -
  let ?R = "run demo_config (failing_env msg good) demo_selection False demo_world"
  have run: "?R = (fst ?R, fst (snd ?R), snd (snd ?R))" by simp
  have ok: "\<forall>n < writes demo_world + 2 * 1 + 2. write_result (failing_env msg good) n = WriteOk"
    using assms by (simp add: failing_env_def demo_world_def)
  have j: "1 < length demo_order" by (simp add: demo_order_def)
  have before: "\<forall>i<1. handler (failing_env msg good) (demo_order ! i) = None"
    by (simp add: failing_env_def demo_order_def)
  have at: "handler (failing_env msg good) (demo_order ! 1) \<noteq> None"
    by (simp add: failing_env_def demo_order_def)
  have "invoked (snd (snd ?R)) = invoked demo_world @ take (Suc 1) demo_order"
    by (rule run_reaches [OF demo_run_order run ok demo_order_known j before at])
  then show ?thesis by (simp add: demo_world_def demo_order_def)
qed

text \<open>
  C1 (as amended).  In a live run over a run order of n steps, if the handler at position
  k (counted from 0) is called and raises \<open>E\<close>, then the handlers called are exactly those
  of positions 0..k, in order, and the session holds exactly k+1 entries: the first k are
  \<open>completed\<close> entries of the steps before k, and the last is the \<open>failed\<close> entry of step
  k, which carries the message \<open>str(E)\<close> when that string is not empty and no message
  when it is.
\<close>

theorem failure_at_position_k:
  assumes "run_order_is cfg selected order"
    and "run cfg env selected False w = (out, plo, w')"
    and "k < length order"
    and "order ! k \<in> set (drop (length (invoked w)) (invoked w'))"
    and "handler env (order ! k) = Some E"
  shows "invoked w' = invoked w @ take (Suc k) order
       \<and> (\<exists>pl. plo = Some pl
             \<and> summary pl = map (\<lambda>s. (s, ''completed'', None)) (take k order)
                  @ [(order ! k, ''failed'', if str_exn env E = [] then None else Some (str_exn env E))])"
  using run_live_shape [OF assms] by blast

theorem failure_at_position_k_witness:
  "invoked (snd (snd (run demo_config (failing_env ''boom'' 4) demo_selection False demo_world)))
     = [''step01_filter_variants'', ''step13_pcoa'']
   \<and> map_option summary (fst (snd (run demo_config (failing_env ''boom'' 4) demo_selection False demo_world)))
     = Some [(''step01_filter_variants'', ''completed'', None), (''step13_pcoa'', ''failed'', Some ''boom'')]"
proof -
  let ?env = "failing_env ''boom'' 4"
  let ?R = "run demo_config ?env demo_selection False demo_world"
  have run: "?R = (fst ?R, fst (snd ?R), snd (snd ?R))" by simp
  have k: "1 < length demo_order" by (simp add: demo_order_def)
  have inv: "demo_order ! 1 \<in> set (drop (length (invoked demo_world)) (invoked (snd (snd ?R))))"
    using demo_reaches [of 4 "''boom''"] by (simp add: demo_world_def demo_order_def)
  have h: "handler ?env (demo_order ! 1) = Some (PyException ''ValueError'' ''boom'')"
    by (simp add: failing_env_def demo_order_def)
  show ?thesis
    using failure_at_position_k [OF demo_run_order run k inv h]
    by (auto simp: demo_world_def demo_order_def str_exn_def)
qed

text \<open>
  The specification promises a non-empty message on the failed entry.  A handler that
  raises an exception whose \<open>str()\<close> is empty (\<open>raise ValueError()\<close>) leaves the entry
  without a message: \<open>complete_step\<close> stores the message only \<open>if message:\<close>.
\<close>

theorem failed_record_without_message:
  "map_option summary (fst (snd (run demo_config (failing_env [] 4) demo_selection False demo_world)))
     = Some [(''step01_filter_variants'', ''completed'', None), (''step13_pcoa'', ''failed'', None)]"
proof -
  let ?env = "failing_env [] 4"
  let ?R = "run demo_config ?env demo_selection False demo_world"
  have run: "?R = (fst ?R, fst (snd ?R), snd (snd ?R))" by simp
  have k: "1 < length demo_order" by (simp add: demo_order_def)
  have inv: "demo_order ! 1 \<in> set (drop (length (invoked demo_world)) (invoked (snd (snd ?R))))"
    using demo_reaches [of 4 "[]"] by (simp add: demo_world_def demo_order_def)
  have h: "handler ?env (demo_order ! 1) = Some (PyException ''ValueError'' [])"
    by (simp add: failing_env_def demo_order_def)
  show ?thesis
    using run_live_shape [OF demo_run_order run k inv h]
    by (auto simp: demo_order_def str_exn_def)
qed

lemma full_disk_reaches:
  "invoked (snd (snd (run demo_config full_disk_env demo_selection False demo_world)))
     = [''step01_filter_variants'', ''step13_pcoa'']"
proof -
  let ?R = "run demo_config full_disk_env demo_selection False demo_world"
  have run: "?R = (fst ?R, fst (snd ?R), snd (snd ?R))" by simp
  have ok: "\<forall>n < writes demo_world + 2 * 1 + 2. write_result full_disk_env n = WriteOk"
    by (simp add: full_disk_env_def failing_env_def demo_world_def)
  have j: "1 < length demo_order" by (simp add: demo_order_def)
  have before: "\<forall>i<1. handler full_disk_env (demo_order ! i) = None"
    by (simp add: full_disk_env_def failing_env_def demo_order_def)
  have at: "handler full_disk_env (demo_order ! 1) \<noteq> None"
    by (simp add: full_disk_env_def failing_env_def demo_order_def)
  have "invoked (snd (snd ?R)) = invoked demo_world @ take (Suc 1) demo_order"
    by (rule run_reaches [OF demo_run_order run ok demo_order_known j before at])
  then show ?thesis by (simp add: demo_world_def demo_order_def)
qed

text \<open>
  C7.  If, in a live run, a step handler is called and raises \<open>E\<close>, then what \<open>fail_step\<close>
  and \<open>finish\<close> raise in the \<open>except\<close> clause is dropped and \<open>E\<close> is raised again
  (\<open>run_live_reraises\<close>); but the \<open>finally\<close> clause then closes the file handler of the
  log outside any \<open>try\<close>, and an error of that \<open>close\<close> takes the place of \<open>E\<close>.  On a disk
  that fills up after the fourth progress write, with the handler of \<open>step13_pcoa\<close>
  raising \<open>ValueError('boom')\<close>: the run ends with the \<open>ValueError\<close> when the log closes,
  and with the \<open>OSError\<close> of \<open>close\<close> when it does not.
\<close>

theorem close_error_replaces_handler_error:
  "fst (run demo_config (failing_env ''boom'' 4) demo_selection False demo_world)
     = Raised (PyException ''ValueError'' ''boom'')
   \<and> fst (run demo_config full_disk_env demo_selection False demo_world)
     = Raised (PyException ''OSError'' ''No space left on device'')"
proof -
  let ?env = "failing_env ''boom'' 4"
  let ?R = "run demo_config ?env demo_selection False demo_world"
  let ?Q = "run demo_config full_disk_env demo_selection False demo_world"
  have run: "?R = (fst ?R, fst (snd ?R), snd (snd ?R))" by simp
  have inv: "''step13_pcoa'' \<in> set (drop (length (invoked demo_world)) (invoked (snd (snd ?R))))"
    using demo_reaches [of 4 "''boom''"] by (simp add: demo_world_def)
  have h: "handler ?env ''step13_pcoa'' = Some (PyException ''ValueError'' ''boom'')"
    by (simp add: failing_env_def)
  have a: "fst ?R = Raised (PyException ''ValueError'' ''boom'')"
    using run_live_reraises [OF run inv h]
    by (simp add: finally_outcome_def failing_env_def demo_env_def)
  have run': "?Q = (fst ?Q, fst (snd ?Q), snd (snd ?Q))" by simp
  have inv': "''step13_pcoa'' \<in> set (drop (length (invoked demo_world)) (invoked (snd (snd ?Q))))"
    using full_disk_reaches by (simp add: demo_world_def)
  have h': "handler full_disk_env ''step13_pcoa'' = Some (PyException ''ValueError'' ''boom'')"
    by (simp add: full_disk_env_def failing_env_def)
  have b: "fst ?Q = Raised (PyException ''OSError'' ''No space left on device'')"
    using run_live_reraises [OF run' inv' h']
    by (simp add: finally_outcome_def full_disk_env_def)
  show ?thesis using a b by simp
qed

theorem dry_run_plans_only_witness:
  "invoked (snd (snd (run demo_config demo_env demo_selection True demo_world))) = []
   \<and> fst (run demo_config demo_env demo_selection True demo_world) = Returned
   \<and> map_option statuses (fst (snd (run demo_config demo_env demo_selection True demo_world)))
     = Some [(''step01_filter_variants'', ''planned''), (''step13_pcoa'', ''planned''),
             (''step02_filter_mapped_snps'', ''planned'')]
   \<and> map_option (\<lambda>pl. d_status (data pl)) (fst (snd (run demo_config demo_env demo_selection True demo_world)))
     = Some ''dry_run''"
proof -
  let ?R = "run demo_config demo_env demo_selection True demo_world"
  have run: "?R = (fst ?R, fst (snd ?R), snd (snd ?R))" by simp
  have ok: "(\<forall>n. write_result demo_env n = WriteOk) \<and> log_close_result demo_env = None"
    by (simp add: demo_env_def)
  show ?thesis
    using dry_run_plans_only [OF demo_run_order run] ok
    by (auto simp: demo_world_def demo_order_def)
qed

section \<open>Properties of the progress log\<close>

lemma entry_matches_rcf: "entry_matches s e = (e_step e = s \<and> rcf e)"
  by (simp add: entry_matches_def rcf_def)

lemma find_first_Some:
  "find_first P xs = Some j \<Longrightarrow> j < length xs \<and> P (xs ! j)"
proof (induction xs arbitrary: j)
  case Nil
  then show ?case by simp
next
  case (Cons x xs)
  show ?case
  proof (cases "P x")
    case True
    then show ?thesis using Cons.prems by auto
  next
    case False
    then obtain j' where "find_first P xs = Some j'" "j = Suc j'"
      using Cons.prems by auto
    then show ?thesis using Cons.IH by auto
  qed
qed

lemma find_first_None: "find_first P xs = None \<Longrightarrow> \<forall>x\<in>set xs. \<not> P x"
  by (induction xs) (auto split: if_splits)

lemma find_step_entry_Inr:
  assumes "find_step_entry env s es = Inr i"
  shows "i < length es \<and> entry_matches s (es ! i)"
proof -
  from assms obtain j where j: "find_first (entry_matches s) (rev es) = Some j" "i = length es - 1 - j"
    by (auto simp: find_step_entry_def split: option.splits)
  from find_first_Some [OF j(1)] have jl: "j < length es" and m: "entry_matches s (rev es ! j)"
    by simp_all
  have "rev es ! j = es ! (length es - Suc j)" using jl by (simp add: rev_nth)
  then show ?thesis using jl m j(2) by simp
qed

lemma find_step_entry_Inl:
  assumes "find_step_entry env s es = Inl e"
  shows "\<forall>x\<in>set es. \<not> entry_matches s x"
proof -
  from assms have "find_first (entry_matches s) (rev es) = None"
    by (auto simp: find_step_entry_def split: option.splits)
  then have "\<forall>x\<in>set (rev es). \<not> entry_matches s x" by (rule find_first_None)
  then show ?thesis by simp
qed

lemma dict_set_fresh: "k \<notin> fst ` set kvs \<Longrightarrow> dict_set kvs k v = kvs @ [(k, v)]"
  by (induction kvs) auto

lemma running_rcf: "e_status e = ''running'' \<Longrightarrow> rcf e"
  by (simp add: rcf_def)

lemma inv_running_append:
  assumes "inv_running es act" and "fst ` set act \<subseteq> fst ` set act'"
    and "e_status e = ''running'' \<longrightarrow> e_step e \<in> fst ` set act'"
  shows "inv_running (es @ [e]) act'"
  unfolding inv_running_def
proof (intro allI impI)
  fix i assume i: "i < length (es @ [e])" and r: "e_status ((es @ [e]) ! i) = ''running''"
  show "e_step ((es @ [e]) ! i) \<in> fst ` set act'"
  proof (cases "i < length es")
    case True
    then show ?thesis using assms(1,2) r by (auto simp: inv_running_def nth_append)
  next
    case False
    then have "i = length es" using i by simp
    then show ?thesis using assms(3) r by simp
  qed
qed

lemma inv_unique_append:
  assumes "inv_unique es"
    and "rcf e \<longrightarrow> (\<forall>i<length es. rcf (es ! i) \<longrightarrow> e_step (es ! i) \<noteq> e_step e)"
  shows "inv_unique (es @ [e])"
  unfolding inv_unique_def
proof (intro allI impI)
  fix i j
  assume i: "i < length (es @ [e])" and j: "j < length (es @ [e])"
    and h: "rcf ((es @ [e]) ! i) \<and> rcf ((es @ [e]) ! j) \<and> e_step ((es @ [e]) ! i) = e_step ((es @ [e]) ! j)"
  consider "i < length es" "j < length es" | "i < length es" "j = length es"
    | "i = length es" "j < length es" | "i = length es" "j = length es"
    using i j by fastforce
  then show "i = j"
  proof cases
    case 1
    then show ?thesis using assms(1) h by (simp add: inv_unique_def nth_append)
  next
    case 2
    then show ?thesis using assms(2) h by (auto simp: nth_append)
  next
    case 3
    then show ?thesis using assms(2) h by (auto simp: nth_append)
  next
    case 4
    then show ?thesis by simp
  qed
qed

lemma inv_started_append:
  assumes "inv_started S es" and "S \<subseteq> S'" and "rcf e \<longrightarrow> e_step e \<in> S'"
  shows "inv_started S' (es @ [e])"
  unfolding inv_started_def
proof (intro allI impI)
  fix i assume i: "i < length (es @ [e])" and r: "rcf ((es @ [e]) ! i)"
  show "e_step ((es @ [e]) ! i) \<in> S'"
  proof (cases "i < length es")
    case True
    then show ?thesis using assms(1,2) r by (auto simp: inv_started_def nth_append)
  next
    case False
    then have "i = length es" using i by simp
    then show ?thesis using assms(3) r by simp
  qed
qed

lemma inv_active_append:
  assumes "inv_active es act"
    and "\<forall>s \<in> fst ` set act'. s \<in> fst ` set act \<or> (e_step e = s \<and> e_status e = ''running'')"
  shows "inv_active (es @ [e]) act'"
  unfolding inv_active_def
proof
  fix s assume s: "s \<in> fst ` set act'"
  show "\<exists>i<length (es @ [e]). e_step ((es @ [e]) ! i) = s \<and> e_status ((es @ [e]) ! i) = ''running''"
  proof (cases "s \<in> fst ` set act")
    case True
    then obtain i where "i < length es" "e_step (es ! i) = s" "e_status (es ! i) = ''running''"
      using assms(1) by (auto simp: inv_active_def)
    then have "i < length (es @ [e]) \<and> e_step ((es @ [e]) ! i) = s \<and> e_status ((es @ [e]) ! i) = ''running''"
      by (simp add: nth_append)
    then show ?thesis by blast
  next
    case False
    then have "e_step e = s \<and> e_status e = ''running''" using assms(2) s by blast
    then have "length es < length (es @ [e]) \<and> e_step ((es @ [e]) ! length es) = s
               \<and> e_status ((es @ [e]) ! length es) = ''running''"
      by simp
    then show ?thesis by blast
  qed
qed

lemma inv_running_update:
  assumes "inv_running es act" and "inv_unique es" and "i < length es" and "rcf (es ! i)"
    and "e_step c = e_step (es ! i)" and "e_status c \<noteq> ''running''"
    and "fst ` set act' = fst ` set act - {e_step c}"
  shows "inv_running (es[i := c]) act'"
  unfolding inv_running_def
proof (intro allI impI)
  fix j assume j: "j < length (es[i := c])" and r: "e_status (es[i := c] ! j) = ''running''"
  have ji: "j \<noteq> i" using r assms(3,6) by auto
  then have same: "es[i := c] ! j = es ! j" by simp
  have jl: "j < length es" using j by simp
  have "e_step (es ! j) \<in> fst ` set act" using assms(1) jl r same by (simp add: inv_running_def)
  moreover have "e_step (es ! j) \<noteq> e_step c"
  proof
    assume "e_step (es ! j) = e_step c"
    then have "rcf (es ! j) \<and> rcf (es ! i) \<and> e_step (es ! j) = e_step (es ! i)"
      using r same assms(4,5) by (simp add: running_rcf)
    then have "j = i" using assms(2,3) jl unfolding inv_unique_def by blast
    then show False using ji by simp
  qed
  ultimately show "e_step (es[i := c] ! j) \<in> fst ` set act'" using assms(7) same by simp
qed

lemma inv_unique_update:
  assumes "inv_unique es" and "i < length es" and "rcf (es ! i)" and "e_step c = e_step (es ! i)"
  shows "inv_unique (es[i := c])"
  unfolding inv_unique_def
proof (intro allI impI)
  fix j k
  assume j: "j < length (es[i := c])" and k: "k < length (es[i := c])"
    and h: "rcf (es[i := c] ! j) \<and> rcf (es[i := c] ! k) \<and> e_step (es[i := c] ! j) = e_step (es[i := c] ! k)"
  have old: "rcf (es ! j) \<and> rcf (es ! k) \<and> e_step (es ! j) = e_step (es ! k)"
    using h assms(2,3,4) by (cases "j = i"; cases "k = i") (auto simp: nth_list_update)
  show "j = k" using assms(1) j k old unfolding inv_unique_def by simp
qed

lemma inv_started_update:
  assumes "inv_started S es" and "i < length es" and "rcf (es ! i)" and "e_step c = e_step (es ! i)"
  shows "inv_started S (es[i := c])"
  unfolding inv_started_def
proof (intro allI impI)
  fix j assume j: "j < length (es[i := c])" and r: "rcf (es[i := c] ! j)"
  show "e_step (es[i := c] ! j) \<in> S"
    using assms j r by (cases "j = i") (auto simp: inv_started_def nth_list_update)
qed

lemma inv_active_update:
  assumes "inv_active es act" and "i < length es" and "e_step c = e_step (es ! i)"
    and "fst ` set act' \<subseteq> fst ` set act - {e_step c}"
  shows "inv_active (es[i := c]) act'"
  unfolding inv_active_def
proof
  fix s assume s: "s \<in> fst ` set act'"
  then have "s \<in> fst ` set act" "s \<noteq> e_step c" using assms(4) by auto
  then obtain j where j: "j < length es" "e_step (es ! j) = s" "e_status (es ! j) = ''running''"
    using assms(1) by (auto simp: inv_active_def)
  then have "j \<noteq> i" using \<open>s \<noteq> e_step c\<close> assms(3) by auto
  then have "j < length (es[i := c]) \<and> e_step (es[i := c] ! j) = s \<and> e_status (es[i := c] ! j) = ''running''"
    using j by simp
  then show "\<exists>j<length (es[i := c]). e_step (es[i := c] ! j) = s \<and> e_status (es[i := c] ! j) = ''running''"
    by blast
qed

lemma keys_filter: "fst ` set (filter (\<lambda>kv. fst kv \<noteq> s) act) = fst ` set act - {s}"
  by (induction act) auto

lemma log_inv_init: "log_inv S (fst (snd (ProgressLog env p sess dry order started w)))"
  by (simp add: log_inv_def ProgressLog_pl inv_running_def inv_unique_def inv_started_def inv_active_def)

lemma log_inv_plan:
  assumes "log_inv S pl"
  shows "log_inv S (fst (snd (plan_step env s pl w)))"
proof -
  let ?e = "planned_entry env s (clock env (ticks w))"
  have st: "e_status ?e = ''planned''" by (simp add: planned_entry_def)
  then have nr: "\<not> rcf ?e" "e_status ?e \<noteq> ''running''" by (simp_all add: rcf_def)
  have "inv_running (d_steps (data pl) @ [?e]) (active_starts pl)"
    using assms nr by (intro inv_running_append) (auto simp: log_inv_def)
  moreover have "inv_unique (d_steps (data pl) @ [?e])"
    using assms nr by (intro inv_unique_append) (auto simp: log_inv_def)
  moreover have "inv_started S (d_steps (data pl) @ [?e])"
    using assms nr by (intro inv_started_append [of S]) (auto simp: log_inv_def)
  moreover have "inv_active (d_steps (data pl) @ [?e]) (active_starts pl)"
    using assms by (intro inv_active_append) (auto simp: log_inv_def)
  ultimately show ?thesis using assms by (simp add: log_inv_def plan_step_pl)
qed

lemma log_inv_keys: "log_inv S pl \<Longrightarrow> fst ` set (active_starts pl) \<subseteq> S"
proof
  fix s assume inv: "log_inv S pl" and s: "s \<in> fst ` set (active_starts pl)"
  then obtain i where "i < length (d_steps (data pl))" "e_step (d_steps (data pl) ! i) = s"
      "e_status (d_steps (data pl) ! i) = ''running''"
    unfolding log_inv_def inv_active_def by blast
  then show "s \<in> S" using inv running_rcf unfolding log_inv_def inv_started_def by blast
qed

lemma log_inv_start:
  assumes "log_inv S pl" and "s \<notin> S"
  shows "log_inv (insert s S) (fst (snd (start_step env s pl w)))"
proof -
  let ?t = "clock env (ticks w)"
  let ?e = "running_entry env s ?t"
  have e: "e_status ?e = ''running''" "e_step ?e = s" "rcf ?e"
    by (simp_all add: running_entry_def rcf_def)
  have fresh: "s \<notin> fst ` set (active_starts pl)" using log_inv_keys [OF assms(1)] assms(2) by auto
  then have act: "dict_set (active_starts pl) s ?t = active_starts pl @ [(s, ?t)]"
    by (rule dict_set_fresh)
  have "distinct (map fst (active_starts pl @ [(s, ?t)]))"
    using assms(1) fresh by (simp add: log_inv_def)
  moreover have "inv_running (d_steps (data pl) @ [?e]) (active_starts pl @ [(s, ?t)])"
    using assms(1) e by (intro inv_running_append [of _ "active_starts pl"]) (auto simp: log_inv_def)
  moreover have "inv_unique (d_steps (data pl) @ [?e])"
  proof (intro inv_unique_append)
    show "inv_unique (d_steps (data pl))" using assms(1) by (simp add: log_inv_def)
    show "rcf ?e \<longrightarrow> (\<forall>i<length (d_steps (data pl)). rcf (d_steps (data pl) ! i)
            \<longrightarrow> e_step (d_steps (data pl) ! i) \<noteq> e_step ?e)"
      using assms e(2) unfolding log_inv_def inv_started_def by auto
  qed
  moreover have "inv_started (insert s S) (d_steps (data pl) @ [?e])"
    using assms(1) e by (intro inv_started_append [of S]) (auto simp: log_inv_def)
  moreover have "inv_active (d_steps (data pl) @ [?e]) (active_starts pl @ [(s, ?t)])"
    using assms(1) e by (intro inv_active_append [of _ "active_starts pl"]) (auto simp: log_inv_def)
  ultimately show ?thesis by (simp add: log_inv_def start_step_pl act)
qed

lemma log_inv_complete:
  assumes "log_inv S pl" and "st \<noteq> ''running''"
  shows "log_inv S (fst (snd (complete_step env s st msg pl w)))"
proof (cases "find_step_entry env s (d_steps (data pl))")
  case (Inl e)
  then show ?thesis using assms(1) by (simp add: complete_step_KeyError)
next
  case (Inr i)
  let ?es = "d_steps (data pl)"
  let ?c = "completed_entry env st msg (clock env (ticks w)) (map_of (active_starts pl) s) (?es ! i)"
  let ?act = "filter (\<lambda>kv. fst kv \<noteq> s) (active_starts pl)"
  from find_step_entry_Inr [OF Inr] have i: "i < length ?es" and m: "entry_matches s (?es ! i)"
    by simp_all
  have r: "rcf (?es ! i)" and stp: "e_step (?es ! i) = s" using m by (simp_all add: entry_matches_rcf)
  have c: "e_step ?c = e_step (?es ! i)" "e_status ?c \<noteq> ''running''" using assms(2) by simp_all
  have keys: "fst ` set ?act = fst ` set (active_starts pl) - {e_step ?c}"
    using stp keys_filter [of s "active_starts pl"] by simp
  have "distinct (map fst ?act)" using assms(1) by (simp add: log_inv_def distinct_map_filter)
  moreover have "inv_running (?es[i := ?c]) ?act"
    using assms(1) i r c keys by (intro inv_running_update) (simp_all add: log_inv_def)
  moreover have "inv_unique (?es[i := ?c])"
    using assms(1) i r c by (intro inv_unique_update) (simp_all add: log_inv_def)
  moreover have "inv_started S (?es[i := ?c])"
    using assms(1) i r c by (intro inv_started_update) (simp_all add: log_inv_def)
  moreover have "inv_active (?es[i := ?c]) ?act"
    using assms(1) i c keys by (intro inv_active_update [of _ "active_starts pl"]) (simp_all add: log_inv_def)
  ultimately show ?thesis by (simp add: log_inv_def complete_step_pl [OF Inr])
qed

lemma failed_pending_entry_simps [simp]:
  "e_step (failed_pending_entry env finished started msg e) = e_step e"
  "e_status (failed_pending_entry env finished started msg e) = ''failed''"
  "e_finished_at (failed_pending_entry env finished started msg e) = Some (fmt env finished)"
  by (simp_all add: failed_pending_entry_def Let_def)

lemma fail_pending_Cons_Inr:
  "find_step_entry env s es = Inr i \<Longrightarrow>
   fail_pending env finished msg ((s, t) # rest) es
     = fail_pending env finished msg rest (es[i := failed_pending_entry env finished t msg (es ! i)])"
  by (simp add: failed_pending_entry_def Let_def)

lemma find_step_entry_unique:
  assumes "inv_unique es" and "j < length es" and "e_step (es ! j) = s" and "rcf (es ! j)"
  shows "find_step_entry env s es = Inr j"
proof (cases "find_step_entry env s es")
  case (Inl e)
  then have "\<not> entry_matches s (es ! j)" using find_step_entry_Inl assms(2) nth_mem by blast
  then show ?thesis using assms(3,4) by (simp add: entry_matches_rcf)
next
  case (Inr i)
  from find_step_entry_Inr [OF Inr] have "i < length es" "e_step (es ! i) = s" "rcf (es ! i)"
    by (simp_all add: entry_matches_rcf)
  then have "i = j" using assms unfolding inv_unique_def by blast
  then show ?thesis using Inr by simp
qed

lemma fail_pending_inv:
  assumes "distinct (map fst pending)" and "inv_unique es" and "inv_active es pending"
  shows "\<exists>es'. fail_pending env fin msg pending es = (None, [], es') \<and> length es' = length es
           \<and> (\<forall>i<length es. e_step (es' ! i) = e_step (es ! i)
                 \<and> (if e_status (es ! i) = ''running'' \<and> e_step (es ! i) \<in> fst ` set pending
                     then e_status (es' ! i) = ''failed'' \<and> e_finished_at (es' ! i) = Some (fmt env fin)
                     else es' ! i = es ! i))"
  using assms
proof (induction pending arbitrary: es)
  case Nil
  then show ?case by simp
next
  case (Cons kv rest)
  obtain s t where kv: "kv = (s, t)" by (cases kv)
  have "s \<in> fst ` set (kv # rest)" using kv by simp
  then obtain j where j: "j < length es" "e_step (es ! j) = s" "e_status (es ! j) = ''running''"
    using Cons.prems(3) unfolding inv_active_def by blast
  have rj: "rcf (es ! j)" using j(3) by (rule running_rcf)
  have found: "find_step_entry env s es = Inr j"
    using Cons.prems(2) j(1,2) rj by (rule find_step_entry_unique)
  let ?fe = "failed_pending_entry env fin t msg (es ! j)"
  let ?es1 = "es[j := ?fe]"
  have step: "fail_pending env fin msg (kv # rest) es = fail_pending env fin msg rest ?es1"
    unfolding kv using found by (rule fail_pending_Cons_Inr)
  have srest: "s \<notin> fst ` set rest" using Cons.prems(1) kv by auto
  have d: "distinct (map fst rest)" using Cons.prems(1) by simp
  have u1: "inv_unique ?es1" using Cons.prems(2) j(1) rj by (intro inv_unique_update) simp_all
  have sub: "fst ` set rest \<subseteq> fst ` set (kv # rest) - {e_step ?fe}"
  proof
    fix x assume x: "x \<in> fst ` set rest"
    then have "x \<noteq> s" using srest by blast
    then show "x \<in> fst ` set (kv # rest) - {e_step ?fe}" using x j(2) by simp
  qed
  have a1: "inv_active ?es1 rest"
    using Cons.prems(3) j(1) _ sub by (rule inv_active_update) simp
  from Cons.IH [OF d u1 a1] obtain es' where es':
      "fail_pending env fin msg rest ?es1 = (None, [], es')" "length es' = length ?es1"
      "\<forall>i<length ?es1. e_step (es' ! i) = e_step (?es1 ! i)
          \<and> (if e_status (?es1 ! i) = ''running'' \<and> e_step (?es1 ! i) \<in> fst ` set rest
              then e_status (es' ! i) = ''failed'' \<and> e_finished_at (es' ! i) = Some (fmt env fin)
              else es' ! i = ?es1 ! i)"
    by blast
  have each: "e_step (es' ! i) = e_step (es ! i)
          \<and> (if e_status (es ! i) = ''running'' \<and> e_step (es ! i) \<in> fst ` set (kv # rest)
              then e_status (es' ! i) = ''failed'' \<and> e_finished_at (es' ! i) = Some (fmt env fin)
              else es' ! i = es ! i)" if i: "i < length es" for i
  proof (cases "i = j")
    case True
    have "es' ! j = ?fe" using es'(3) j(1) by auto
    then show ?thesis using True j kv by simp
  next
    case False
    then have same: "?es1 ! i = es ! i" by simp
    have ih: "e_step (es' ! i) = e_step (es ! i)
          \<and> (if e_status (es ! i) = ''running'' \<and> e_step (es ! i) \<in> fst ` set rest
              then e_status (es' ! i) = ''failed'' \<and> e_finished_at (es' ! i) = Some (fmt env fin)
              else es' ! i = es ! i)"
      using es'(3) i same by (metis length_list_update)
    have ns: "e_step (es ! i) \<noteq> s" if "e_status (es ! i) = ''running''"
    proof
      assume "e_step (es ! i) = s"
      then have "rcf (es ! i) \<and> rcf (es ! j) \<and> e_step (es ! i) = e_step (es ! j)"
        using that rj j(2) by (simp add: running_rcf)
      then have "i = j" using Cons.prems(2) i j(1) unfolding inv_unique_def by blast
      then show False using False by simp
    qed
    show ?thesis
    proof (cases "e_status (es ! i) = ''running''")
      case True
      then have "e_step (es ! i) \<noteq> s" by (rule ns)
      then show ?thesis using ih True kv by simp
    next
      case False
      then show ?thesis using ih by simp
    qed
  qed
  have "fail_pending env fin msg (kv # rest) es = (None, [], es')" using step es'(1) by simp
  moreover have "length es' = length es" using es'(2) by simp
  ultimately show ?case using each by blast
qed

lemma finish_unfold:
  "finish env st msg pl w =
     (case fail_pending env (clock env (ticks w)) msg (rev (active_starts pl)) (d_steps (data pl)) of
        (r, pending, es) \<Rightarrow>
          (let pl1 = pl\<lparr>active_starts := rev pending,
                          data := (data pl)\<lparr>d_status := st,
                                    d_finished_at := Some (fmt env (clock env (ticks w))),
                                    d_message := (if is_set msg then msg else d_message (data pl)),
                                    d_steps := es\<rparr>\<rparr>
           in case r of
                Some e \<Rightarrow> (Some e, pl1, w\<lparr>ticks := Suc (ticks w)\<rparr>)
              | None \<Rightarrow> (fst (write_progress env pl1 (w\<lparr>ticks := Suc (ticks w)\<rparr>)), pl1,
                         snd (write_progress env pl1 (w\<lparr>ticks := Suc (ticks w)\<rparr>)))))"
  by (cases "is_set msg") (simp_all add: finish_def now_def Let_def split_def split: option.splits)

lemma finish_under_inv:
  assumes inv: "log_inv S pl" and fin: "finish env st msg pl w = (r, pl', w')"
  shows "log_inv S pl'"
    and "length (d_steps (data pl')) = length (d_steps (data pl))"
    and "\<forall>i<length (d_steps (data pl)).
           if e_status (d_steps (data pl) ! i) = ''running''
           then e_status (d_steps (data pl') ! i) = ''failed''
                \<and> e_finished_at (d_steps (data pl') ! i) = Some (fmt env (clock env (ticks w)))
           else d_steps (data pl') ! i = d_steps (data pl) ! i"
    and "d_status (data pl') = st"
    and "d_finished_at (data pl') = Some (fmt env (clock env (ticks w)))"
    and "write_progress env pl' (w\<lparr>ticks := Suc (ticks w)\<rparr>) = (r, w')"
    and "active_starts pl' = []"
proof -
  let ?es = "d_steps (data pl)"
  let ?fin = "clock env (ticks w)"
  have d: "distinct (map fst (rev (active_starts pl)))"
    using inv by (simp add: log_inv_def rev_map [symmetric])
  have u: "inv_unique ?es" using inv by (simp add: log_inv_def)
  have a: "inv_active ?es (rev (active_starts pl))"
    using inv by (simp add: log_inv_def inv_active_def)
  from fail_pending_inv [OF d u a, of env ?fin msg] obtain es' where es':
      "fail_pending env ?fin msg (rev (active_starts pl)) ?es = (None, [], es')"
      "length es' = length ?es"
      "\<forall>i<length ?es. e_step (es' ! i) = e_step (?es ! i)
          \<and> (if e_status (?es ! i) = ''running'' \<and> e_step (?es ! i) \<in> fst ` set (rev (active_starts pl))
              then e_status (es' ! i) = ''failed'' \<and> e_finished_at (es' ! i) = Some (fmt env ?fin)
              else es' ! i = ?es ! i)"
    by blast
  have steps: "d_steps (data pl') = es'" and act: "active_starts pl' = []"
    and st: "d_status (data pl') = st"
    and fa: "d_finished_at (data pl') = Some (fmt env ?fin)"
    and wr: "write_progress env pl' (w\<lparr>ticks := Suc (ticks w)\<rparr>) = (r, w')"
    using fin es'(1) by (auto simp: finish_unfold Let_def prod_eq_iff)
  have each: "if e_status (?es ! i) = ''running''
           then e_status (es' ! i) = ''failed'' \<and> e_finished_at (es' ! i) = Some (fmt env ?fin)
           else es' ! i = ?es ! i" if i: "i < length ?es" for i
  proof (cases "e_status (?es ! i) = ''running''")
    case True
    then have "e_step (?es ! i) \<in> fst ` set (active_starts pl)"
      using inv i unfolding log_inv_def inv_running_def by blast
    then show ?thesis using es'(3) i True by simp
  next
    case False
    then show ?thesis using es'(3) i by simp
  qed
  have same_step: "e_step (es' ! i) = e_step (?es ! i)" if "i < length ?es" for i
    using es'(3) that by blast
  have same_rcf: "rcf (es' ! i) = rcf (?es ! i)" if "i < length ?es" for i
    using each [OF that] by (cases "e_status (?es ! i) = ''running''") (simp_all add: rcf_def)
  have not_running: "e_status (es' ! i) \<noteq> ''running''" if "i < length ?es" for i
    using each [OF that] by (cases "e_status (?es ! i) = ''running''") simp_all
  have "inv_running es' []" unfolding inv_running_def using not_running es'(2) by simp
  moreover have "inv_unique es'"
    using u same_step same_rcf es'(2) unfolding inv_unique_def by simp
  moreover have "inv_started S es'"
    using inv same_step same_rcf es'(2) unfolding log_inv_def inv_started_def by simp
  moreover have "inv_active es' []" by (simp add: inv_active_def)
  ultimately show "log_inv S pl'" by (simp add: log_inv_def steps act)
  show "length (d_steps (data pl')) = length ?es" using steps es'(2) by simp
  show "\<forall>i<length ?es.
           if e_status (?es ! i) = ''running''
           then e_status (d_steps (data pl') ! i) = ''failed''
                \<and> e_finished_at (d_steps (data pl') ! i) = Some (fmt env ?fin)
           else d_steps (data pl') ! i = ?es ! i"
    using each steps by simp
  show "d_status (data pl') = st" by (rule st)
  show "d_finished_at (data pl') = Some (fmt env ?fin)" by (rule fa)
  show "write_progress env pl' (w\<lparr>ticks := Suc (ticks w)\<rparr>) = (r, w')" by (rule wr)
  show "active_starts pl' = []" by (rule act)
qed

lemma log_inv_finish: "log_inv S pl \<Longrightarrow> log_inv S (fst (snd (finish env st msg pl w)))"
  using finish_under_inv(1) [of S pl env st msg w] by (metis prod.collapse)

lemma log_inv_apply_op:
  assumes "log_inv S pl" and "set (started_steps [x]) \<inter> S = {}" and "\<not> completes_as_running x"
  shows "log_inv (S \<union> set (started_steps [x])) (fst (snd (apply_op env x pl w)))"
proof (cases x)
  case (PlanStep s)
  then show ?thesis using assms(1) by (simp add: log_inv_plan)
next
  case (StartStep s)
  then show ?thesis using assms(1,2) by (simp add: log_inv_start)
next
  case (CompleteStep s st msg)
  then show ?thesis using assms(1,3) by (simp add: log_inv_complete)
next
  case (FailStep s msg)
  then show ?thesis using assms(1) by (simp add: fail_step_def log_inv_complete)
next
  case (Finish st msg)
  then show ?thesis using assms(1) by (simp add: log_inv_finish)
qed

lemma started_steps_Cons: "started_steps (x # xs) = started_steps [x] @ started_steps xs"
  by (cases x) simp_all

lemma log_inv_apply_ops:
  assumes "log_inv S pl" and "distinct (started_steps ops)" and "set (started_steps ops) \<inter> S = {}"
    and "\<forall>x\<in>set ops. \<not> completes_as_running x"
  shows "log_inv (S \<union> set (started_steps ops)) (fst (apply_ops env ops pl w))"
  using assms
proof (induction ops arbitrary: S pl w)
  case Nil
  then show ?case by simp
next
  case (Cons x xs)
  obtain r1 pl1 w1 where op: "apply_op env x pl w = (r1, pl1, w1)"
    by (cases "apply_op env x pl w")
  have split: "started_steps (x # xs) = started_steps [x] @ started_steps xs"
    by (rule started_steps_Cons)
  have fresh: "set (started_steps [x]) \<inter> S = {}" using Cons.prems(3) split by auto
  have inv1: "log_inv (S \<union> set (started_steps [x])) pl1"
    using log_inv_apply_op [OF Cons.prems(1) fresh, of env w] Cons.prems(4) op by simp
  have d: "distinct (started_steps xs)" using Cons.prems(2) split by simp
  have disj: "set (started_steps xs) \<inter> (S \<union> set (started_steps [x])) = {}"
    using Cons.prems(2,3) split by auto
  have rest: "\<forall>y\<in>set xs. \<not> completes_as_running y" using Cons.prems(4) by simp
  have "log_inv (S \<union> set (started_steps [x]) \<union> set (started_steps xs)) (fst (apply_ops env xs pl1 w1))"
    by (rule Cons.IH [OF inv1 d disj rest])
  then show ?case using op split by (simp add: Un_assoc)
qed

lemma finish_after_ops_shape:
  assumes "distinct (started_steps ops)"
    and "\<forall>x\<in>set ops. \<not> completes_as_running x"
    and "ProgressLog env p sess dry order started w0 = (r0, pl0, w1)"
    and "apply_ops env ops pl0 w1 = (pl1, w2)"
    and "finish env st msg pl1 w2 = (r, pl2, w3)"
  shows "''running'' \<notin> e_status ` set (d_steps (data pl2))
       \<and> length (d_steps (data pl2)) = length (d_steps (data pl1))
       \<and> (\<forall>i<length (d_steps (data pl1)).
            e_status (d_steps (data pl1) ! i) = ''running'' \<longrightarrow>
              e_status (d_steps (data pl2) ! i) = ''failed''
              \<and> e_finished_at (d_steps (data pl2) ! i) = Some (fmt env (clock env (ticks w2))))
       \<and> d_status (data pl2) = st
       \<and> d_finished_at (data pl2) = Some (fmt env (clock env (ticks w2)))
       \<and> write_progress env pl2 (w2\<lparr>ticks := Suc (ticks w2)\<rparr>) = (r, w3)"
proof -
  have "log_inv {} pl0" using log_inv_init [of "{}" env p sess dry order started w0] assms(3) by simp
  then have "log_inv ({} \<union> set (started_steps ops)) (fst (apply_ops env ops pl0 w1))"
    using assms(1,2) by (intro log_inv_apply_ops) simp_all
  then have inv1: "log_inv (set (started_steps ops)) pl1" using assms(4) by simp
  note f = finish_under_inv [OF inv1 assms(5)]
  have "e_status e \<noteq> ''running''" if "e \<in> set (d_steps (data pl2))" for e
  proof -
    from that obtain i where i: "i < length (d_steps (data pl2))" "e = d_steps (data pl2) ! i"
      by (auto simp: in_set_conv_nth)
    then have il: "i < length (d_steps (data pl1))" using f(2) by simp
    show ?thesis
      using f(3) il i(2) by (cases "e_status (d_steps (data pl1) ! i) = ''running''") auto
  qed
  then have nr: "\<And>e. e \<in> set (d_steps (data pl2)) \<Longrightarrow> e_status e \<noteq> ''running''" .
  have "''running'' \<notin> e_status ` set (d_steps (data pl2))"
  proof
    assume "''running'' \<in> e_status ` set (d_steps (data pl2))"
    then obtain e where e: "''running'' = e_status e" "e \<in> set (d_steps (data pl2))"
      by (rule imageE)
    show False using nr [OF e(2)] e(1) by simp
  qed
  moreover have "\<forall>i<length (d_steps (data pl1)).
            e_status (d_steps (data pl1) ! i) = ''running'' \<longrightarrow>
              e_status (d_steps (data pl2) ! i) = ''failed''
              \<and> e_finished_at (d_steps (data pl2) ! i) = Some (fmt env (clock env (ticks w2)))"
    using f(3) by auto
  ultimately show ?thesis using f(2,4,5,6) by simp
qed

text \<open>
  C6 (as amended).  Take a \<open>ProgressLog\<close> fresh from its constructor and any sequence of
  lifecycle calls on it (each may raise and the caller go on) in which every step
  identifier is started at most once and \<open>complete_step\<close> is never given the status
  \<open>running\<close>.  After a call of \<open>finish(status, message)\<close>, no entry of the session is
  \<open>running\<close>: each entry that was \<open>running\<close> is \<open>failed\<close> and its \<open>finished_at\<close> is the
  finish time of the run; the status and the finish time of the session are set; and the
  write that ends \<open>finish\<close> is the write of this updated state, so \<open>finish\<close> returns
  exactly when that write succeeds.
\<close>

theorem finish_fails_running_steps:
  assumes "distinct (started_steps ops)"
    and "\<forall>x\<in>set ops. \<not> completes_as_running x"
    and "ProgressLog env p sess dry order started w0 = (r0, pl0, w1)"
    and "apply_ops env ops pl0 w1 = (pl1, w2)"
    and "finish env st msg pl1 w2 = (r, pl2, w3)"
  shows "''running'' \<notin> e_status ` set (d_steps (data pl2))
       \<and> length (d_steps (data pl2)) = length (d_steps (data pl1))
       \<and> (\<forall>i<length (d_steps (data pl1)).
            e_status (d_steps (data pl1) ! i) = ''running'' \<longrightarrow>
              e_status (d_steps (data pl2) ! i) = ''failed''
              \<and> e_finished_at (d_steps (data pl2) ! i) = Some (fmt env (clock env (ticks w2))))
       \<and> d_status (data pl2) = st
       \<and> d_finished_at (data pl2) = Some (fmt env (clock env (ticks w2)))
       \<and> write_progress env pl2 (w2\<lparr>ticks := Suc (ticks w2)\<rparr>) = (r, w3)"
  using assms by (rule finish_after_ops_shape)

theorem finish_fails_running_steps_witness:
  "statuses (fst demo_after) = [(''x'', ''planned''), (''a'', ''completed''), (''b'', ''running'')]
   \<and> ''running'' \<notin> e_status ` set (d_steps (data (fst (snd
         (finish demo_env ''failed'' (Some ''stop'') (fst demo_after) (snd demo_after))))))
   \<and> e_status (d_steps (data (fst (snd
         (finish demo_env ''failed'' (Some ''stop'') (fst demo_after) (snd demo_after))))) ! 2) = ''failed''
   \<and> d_status (data (fst (snd
         (finish demo_env ''failed'' (Some ''stop'') (fst demo_after) (snd demo_after))))) = ''failed''"
proof -
  let ?F = "finish demo_env ''failed'' (Some ''stop'') (fst demo_after) (snd demo_after)"
  have h1: "distinct (started_steps demo_ops)" by (simp add: demo_ops_def)
  have h2: "\<forall>x\<in>set demo_ops. \<not> completes_as_running x" by (simp add: demo_ops_def)
  have e1: "ProgressLog demo_env (''/proj/outputs/run_history'', ''run_0.json'') ''run_0'' False
              [''a'', ''b''] None demo_world = (fst demo_log, fst (snd demo_log), snd (snd demo_log))"
    by (simp add: demo_log_def)
  have e2: "apply_ops demo_env demo_ops (fst (snd demo_log)) (snd (snd demo_log))
              = (fst demo_after, snd demo_after)"
    by (simp add: demo_after_def)
  have e3: "?F = (fst ?F, fst (snd ?F), snd (snd ?F))" by simp
  have before: "statuses (fst demo_after) = [(''x'', ''planned''), (''a'', ''completed''), (''b'', ''running'')]"
    by code_simp
  have len: "length (d_steps (data (fst demo_after))) = 3"
    using arg_cong [OF before, of length] by (simp add: statuses_def)
  have third: "e_status (d_steps (data (fst demo_after)) ! 2) = ''running''"
    using arg_cong [OF before, of "\<lambda>xs. snd (xs ! 2)"] len by (simp add: statuses_def)
  show ?thesis
    using finish_fails_running_steps [OF h1 h2 e1 e2 e3] before len third by simp
qed

text \<open>
  The specification speaks of every sequence in which each step is started at most once.
  \<open>complete_step\<close> takes the status as an argument; given \<open>running\<close> it leaves the entry
  \<open>running\<close> and drops its active start, so \<open>finish\<close>, which goes by the active starts,
  returns with the entry still \<open>running\<close>.
\<close>

theorem finish_leaves_running_entry:
  "distinct (started_steps restatus_ops)
   \<and> fst (finish demo_env ''completed'' None (fst restatus_after) (snd restatus_after)) = None
   \<and> statuses (fst (snd (finish demo_env ''completed'' None (fst restatus_after) (snd restatus_after))))
       = [(''a'', ''running'')]"
  by code_simp

section \<open>Properties of the durable write\<close>

lemma tmp_neq: "n @ ''.tmp'' \<noteq> ''latest.json''"
proof
  assume "n @ ''.tmp'' = ''latest.json''"
  then have "last (n @ ''.tmp'') = last ''latest.json''" by (rule arg_cong)
  then show False by simp
qed

lemma last_write_text: "last (fs # fs_steps fs (WriteText p s)) = fs(p \<mapsto> s)"
  by simp

lemma fs_trace_write:
  assumes wn: "well_named p pl"
  shows "list_all (intact env pl fs0) (fs_trace fs0 (write_ops env pl))"
    and "last (fs0 # fs_trace fs0 (write_ops env pl)) (path pl) = Some (json_dumps env (SessionDoc (data pl)))"
    and "last (fs0 # fs_trace fs0 (write_ops env pl)) (latest_path pl)
           = Some (json_dumps env (LatestDoc (latest_payload_of pl)))"
proof -
  obtain d n where p: "p = (d, n)" by (cases p)
  have paths: "path pl = (d, n)" "latest_path pl = (d, ''latest.json'')"
    and n: "n \<noteq> ''latest.json''" "n \<noteq> ''latest.json.tmp''"
    using wn p by (simp_all add: well_named_def)
  have ne: "n @ ''.tmp'' \<noteq> ''latest.json''" "''latest.json'' \<noteq> n @ ''.tmp''"
    using tmp_neq [of n] by simp_all
  have n': "''latest.json'' \<noteq> n" "''latest.json.tmp'' \<noteq> n" using n by simp_all
  show "list_all (intact env pl fs0) (fs_trace fs0 (write_ops env pl))"
    using n n' ne by (simp add: write_ops_def tmp_of_def paths list_all_iff intact_def ball_Un)
  show "last (fs0 # fs_trace fs0 (write_ops env pl)) (path pl) = Some (json_dumps env (SessionDoc (data pl)))"
    using n n' ne by (simp add: write_ops_def tmp_of_def paths)
  show "last (fs0 # fs_trace fs0 (write_ops env pl)) (latest_path pl)
           = Some (json_dumps env (LatestDoc (latest_payload_of pl)))"
    using n n' ne by (simp add: write_ops_def tmp_of_def paths)
qed

lemma list_all_take_butlast: "list_all P xs \<Longrightarrow> list_all P (take n (butlast xs))"
proof -
  assume a: "list_all P xs"
  have "x \<in> set xs" if "x \<in> set (take n (butlast xs))" for x
  proof -
    from that have "x \<in> set (butlast xs)" by (rule in_set_takeD)
    then show ?thesis by (rule in_set_butlastD)
  qed
  then show ?thesis using a by (simp add: list_all_iff)
qed

lemma write_persisted:
  assumes "well_named p pl"
  shows "persisted env pl w (fst (write_progress env pl w)) (snd (write_progress env pl w))"
proof -
  let ?tr = "fs_trace (files w) (write_ops env pl)"
  note t = fs_trace_write [OF assms, where env = env and ?fs0.0 = "files w"]
  have f: "files (snd (write_progress env pl w)) = last (files w # write_states env pl w)"
    by (simp add: write_progress_def)
  have wr: "writes (snd (write_progress env pl w)) = Suc (writes w)"
    by (simp add: write_progress_def)
  show ?thesis
  proof (cases "write_result env (writes w)")
    case WriteOk
    then have ws: "write_states env pl w = ?tr" by (simp add: write_states_def)
    have r: "write_exn env (writes w) = None" using WriteOk by (simp add: write_exn_def)
    show ?thesis unfolding persisted_def write_progress_fst f wr ws using t r by simp
  next
    case (WriteFails n e)
    then have ws: "write_states env pl w = take n (butlast ?tr)" by (simp add: write_states_def)
    have r: "write_exn env (writes w) = Some e" using WriteFails by (simp add: write_exn_def)
    have "list_all (intact env pl (files w)) (take n (butlast ?tr))"
      using t(1) by (rule list_all_take_butlast)
    then show ?thesis unfolding persisted_def write_progress_fst f wr ws using r by simp
  qed
qed

lemma persisted_cong:
  "files w1 = files w \<Longrightarrow> writes w1 = writes w \<Longrightarrow> persisted env pl w1 r w' = persisted env pl w r w'"
  by (simp add: persisted_def write_states_def)

lemma op_persisted:
  assumes "well_named p pl1" and "files w1 = files w" and "writes w1 = writes w"
    and "r = fst (write_progress env pl1 w1)" and "w' = snd (write_progress env pl1 w1)"
  shows "persisted env pl1 w r w'"
proof -
  have "persisted env pl1 w1 r w'"
    using write_persisted [OF assms(1), of env w1] assms(4,5) by simp
  then show ?thesis using persisted_cong [OF assms(2,3), of env pl1 r w'] by simp
qed

lemma plan_step_snd:
  "snd (snd (plan_step env s pl w))
     = snd (write_progress env (fst (snd (plan_step env s pl w))) (w\<lparr>ticks := Suc (ticks w)\<rparr>))"
  by (simp add: plan_step_def now_def split_def Let_def)

lemma start_step_snd:
  "snd (snd (start_step env s pl w))
     = snd (write_progress env (fst (snd (start_step env s pl w))) (w\<lparr>ticks := Suc (ticks w)\<rparr>))"
  by (simp add: start_step_def now_def split_def Let_def)

lemma complete_step_snd:
  "find_step_entry env s (d_steps (data pl)) = Inr i \<Longrightarrow>
   snd (snd (complete_step env s st msg pl w))
     = snd (write_progress env (fst (snd (complete_step env s st msg pl w))) (w\<lparr>ticks := Suc (ticks w)\<rparr>))"
  by (simp add: complete_step_def now_def split_def Let_def)

lemma ProgressLog_snd:
  "\<exists>w1. files w1 = files w \<and> writes w1 = writes w
        \<and> fst (ProgressLog env p sess dry order started w)
            = fst (write_progress env (fst (snd (ProgressLog env p sess dry order started w))) w1)
        \<and> snd (snd (ProgressLog env p sess dry order started w))
            = snd (write_progress env (fst (snd (ProgressLog env p sess dry order started w))) w1)"
proof (cases started)
  case None
  have "files (w\<lparr>ticks := Suc (ticks w)\<rparr>) = files w \<and> writes (w\<lparr>ticks := Suc (ticks w)\<rparr>) = writes w
        \<and> fst (ProgressLog env p sess dry order started w)
            = fst (write_progress env (fst (snd (ProgressLog env p sess dry order started w)))
                     (w\<lparr>ticks := Suc (ticks w)\<rparr>))
        \<and> snd (snd (ProgressLog env p sess dry order started w))
            = snd (write_progress env (fst (snd (ProgressLog env p sess dry order started w)))
                     (w\<lparr>ticks := Suc (ticks w)\<rparr>))"
    using None by (simp add: ProgressLog_def now_def split_def Let_def)
  then show ?thesis by blast
next
  case (Some t)
  have "files w = files w \<and> writes w = writes w
        \<and> fst (ProgressLog env p sess dry order started w)
            = fst (write_progress env (fst (snd (ProgressLog env p sess dry order started w))) w)
        \<and> snd (snd (ProgressLog env p sess dry order started w))
            = snd (write_progress env (fst (snd (ProgressLog env p sess dry order started w))) w)"
    using Some by (simp add: ProgressLog_def split_def Let_def)
  then show ?thesis by blast
qed

lemma keys_dict_set: "fst ` set (dict_set kvs k v) = insert k (fst ` set kvs)"
proof (induction kvs)
  case Nil
  show ?case by simp
next
  case (Cons kv kvs)
  obtain k' v' where kv: "kv = (k', v')" by (cases kv)
  show ?case
  proof (cases "k' = k")
    case True
    then show ?thesis by (simp add: kv)
  next
    case False
    then show ?thesis using Cons.IH by (simp add: kv insert_commute)
  qed
qed

lemma in_set_update:
  assumes "e \<in> set es" and "e \<noteq> es ! i"
  shows "e \<in> set (es[i := c])"
proof -
  from assms(1) obtain j where j: "j < length es" "es ! j = e" by (auto simp: in_set_conv_nth)
  then have "j \<noteq> i" using assms(2) by auto
  then have "es[i := c] ! j = e" "j < length (es[i := c])" using j by simp_all
  then show ?thesis using nth_mem by blast
qed

lemma fail_pending_reach:
  assumes "\<forall>s\<in>fst ` set pending. \<exists>e\<in>set es. entry_matches s e"
  shows "\<exists>es'. fail_pending env fin msg pending es = (None, [], es')"
  using assms
proof (induction pending arbitrary: es)
  case Nil
  then show ?case by simp
next
  case (Cons kv rest)
  obtain s t where kv: "kv = (s, t)" by (cases kv)
  have "\<exists>e\<in>set es. entry_matches s e" using Cons.prems kv by simp
  then obtain e0 where e0: "e0 \<in> set es" "entry_matches s e0" by (rule bexE)
  have "find_step_entry env s es \<noteq> Inl x" for x
  proof
    assume "find_step_entry env s es = Inl x"
    then have "\<forall>y\<in>set es. \<not> entry_matches s y" by (rule find_step_entry_Inl)
    then show False using e0 by simp
  qed
  then obtain i where found: "find_step_entry env s es = Inr i"
    by (cases "find_step_entry env s es") auto
  from find_step_entry_Inr [OF found] have i: "i < length es" and m: "entry_matches s (es ! i)"
    by simp_all
  let ?fe = "failed_pending_entry env fin t msg (es ! i)"
  have step: "fail_pending env fin msg (kv # rest) es = fail_pending env fin msg rest (es[i := ?fe])"
    unfolding kv using found by (rule fail_pending_Cons_Inr)
  have "\<forall>s'\<in>fst ` set rest. \<exists>e\<in>set (es[i := ?fe]). entry_matches s' e"
  proof
    fix s' assume "s' \<in> fst ` set rest"
    then obtain e where e: "e \<in> set es" "entry_matches s' e" using Cons.prems by auto
    show "\<exists>e\<in>set (es[i := ?fe]). entry_matches s' e"
    proof (cases "e = es ! i")
      case True
      then have "entry_matches s' ?fe" using e(2) by (simp add: entry_matches_def)
      moreover have "?fe \<in> set (es[i := ?fe])" using i by (simp add: set_update_memI)
      ultimately show ?thesis by blast
    next
      case False
      then have "e \<in> set (es[i := ?fe])" using e(1) by (intro in_set_update)
      then show ?thesis using e(2) by blast
    qed
  qed
  from Cons.IH [OF this] show ?case using step by simp
qed

lemma reach_init:
  assumes "snd p \<noteq> ''latest.json''" and "snd p \<noteq> ''latest.json.tmp''"
  shows "reach_inv p (fst (snd (ProgressLog env p sess dry order started w)))"
  using assms by (simp add: reach_inv_def well_named_def ProgressLog_pl)

lemma reach_plan:
  assumes "reach_inv p pl"
  shows "reach_inv p (fst (snd (plan_step env s pl w)))"
  using assms by (auto simp: reach_inv_def well_named_def plan_step_pl)

lemma reach_start:
  assumes "reach_inv p pl"
  shows "reach_inv p (fst (snd (start_step env s pl w)))"
proof -
  have "\<exists>e\<in>set (d_steps (data pl) @ [running_entry env s (clock env (ticks w))]). entry_matches s' e"
    if "s' \<in> insert s (fst ` set (active_starts pl))" for s'
  proof (cases "s' = s")
    case True
    then show ?thesis using running_entry_matches [of s env "clock env (ticks w)"] by simp
  next
    case False
    then have "s' \<in> fst ` set (active_starts pl)" using that by simp
    then obtain e where "e \<in> set (d_steps (data pl))" "entry_matches s' e"
      using assms unfolding reach_inv_def by blast
    then show ?thesis by auto
  qed
  then show ?thesis
    using assms by (simp add: reach_inv_def well_named_def start_step_pl keys_dict_set)
qed

lemma reach_complete:
  assumes "reach_inv p pl"
  shows "reach_inv p (fst (snd (complete_step env s st msg pl w)))"
proof (cases "find_step_entry env s (d_steps (data pl))")
  case (Inl e)
  then show ?thesis using assms by (simp add: complete_step_KeyError)
next
  case (Inr i)
  let ?es = "d_steps (data pl)"
  let ?c = "completed_entry env st msg (clock env (ticks w)) (map_of (active_starts pl) s) (?es ! i)"
  from find_step_entry_Inr [OF Inr] have i: "i < length ?es" and m: "entry_matches s (?es ! i)"
    by simp_all
  have "\<exists>e\<in>set (?es[i := ?c]). entry_matches s' e"
    if "s' \<in> fst ` set (filter (\<lambda>kv. fst kv \<noteq> s) (active_starts pl))" for s'
  proof -
    from that have "s' \<in> fst ` set (active_starts pl) - {s}" by (simp only: keys_filter)
    then have ne: "s' \<noteq> s" and "s' \<in> fst ` set (active_starts pl)" by simp_all
    then obtain e where e: "e \<in> set ?es" "entry_matches s' e"
      using assms unfolding reach_inv_def by blast
    have "e \<noteq> ?es ! i" using e(2) m ne by (auto simp: entry_matches_def)
    then have "e \<in> set (?es[i := ?c])" using e(1) by (intro in_set_update)
    then show ?thesis using e(2) by blast
  qed
  then show ?thesis
    using assms by (simp add: reach_inv_def well_named_def complete_step_pl [OF Inr])
qed

lemma finish_reach:
  assumes "reach_inv p pl"
  shows "reach_inv p (fst (snd (finish env st msg pl w)))"
    and "fst (finish env st msg pl w)
           = fst (write_progress env (fst (snd (finish env st msg pl w))) (w\<lparr>ticks := Suc (ticks w)\<rparr>))"
    and "snd (snd (finish env st msg pl w))
           = snd (write_progress env (fst (snd (finish env st msg pl w))) (w\<lparr>ticks := Suc (ticks w)\<rparr>))"
proof -
  have "\<forall>s\<in>fst ` set (rev (active_starts pl)). \<exists>e\<in>set (d_steps (data pl)). entry_matches s e"
    using assms by (simp add: reach_inv_def)
  from fail_pending_reach [OF this, of env "clock env (ticks w)" msg] obtain es' where
    fp: "fail_pending env (clock env (ticks w)) msg (rev (active_starts pl)) (d_steps (data pl))
           = (None, [], es')"
    by blast
  show "reach_inv p (fst (snd (finish env st msg pl w)))"
    using assms by (simp add: finish_unfold fp Let_def reach_inv_def well_named_def)
  show "fst (finish env st msg pl w)
           = fst (write_progress env (fst (snd (finish env st msg pl w))) (w\<lparr>ticks := Suc (ticks w)\<rparr>))"
    by (simp add: finish_unfold fp Let_def)
  show "snd (snd (finish env st msg pl w))
           = snd (write_progress env (fst (snd (finish env st msg pl w))) (w\<lparr>ticks := Suc (ticks w)\<rparr>))"
    by (simp add: finish_unfold fp Let_def)
qed

lemma reach_apply_op: "reach_inv p pl \<Longrightarrow> reach_inv p (fst (snd (apply_op env x pl w)))"
  by (cases x) (simp_all add: reach_plan reach_start reach_complete fail_step_def finish_reach(1))

lemma reach_apply_ops: "reach_inv p pl \<Longrightarrow> reach_inv p (fst (apply_ops env ops pl w))"
proof (induction ops arbitrary: pl w)
  case Nil
  then show ?case by simp
next
  case (Cons x xs)
  obtain r1 pl1 w1 where op: "apply_op env x pl w = (r1, pl1, w1)"
    by (cases "apply_op env x pl w")
  have "reach_inv p pl1" using reach_apply_op [OF Cons.prems, of env x w] op by simp
  from Cons.IH [OF this] show ?case using op by simp
qed

lemma reach_well_named: "reach_inv p pl \<Longrightarrow> well_named p pl"
  by (simp add: reach_inv_def)

lemma complete_step_persisted:
  assumes "reach_inv p pl" and "complete_step env s st msg pl w = (r, pl', w')"
  shows "case find_step_entry env s (d_steps (data pl)) of
           Inl e \<Rightarrow> r = Some e \<and> pl' = pl \<and> files w' = files w \<and> writes w' = writes w
         | Inr i \<Rightarrow> persisted env pl' w r w'"
proof (cases "find_step_entry env s (d_steps (data pl))")
  case (Inl e)
  then show ?thesis using assms(2) by (auto simp: complete_step_KeyError)
next
  case (Inr i)
  have wn: "well_named p pl'"
    using reach_well_named [OF reach_complete [OF assms(1), of env s st msg w]] assms(2) by simp
  have "persisted env pl' w r w'"
  proof (rule op_persisted [OF wn, of "w\<lparr>ticks := Suc (ticks w)\<rparr>"])
    show "files (w\<lparr>ticks := Suc (ticks w)\<rparr>) = files w" by simp
    show "writes (w\<lparr>ticks := Suc (ticks w)\<rparr>) = writes w" by simp
    show "r = fst (write_progress env pl' (w\<lparr>ticks := Suc (ticks w)\<rparr>))"
      using complete_step_fst [OF Inr, of st msg w] assms(2) by simp
    show "w' = snd (write_progress env pl' (w\<lparr>ticks := Suc (ticks w)\<rparr>))"
      using complete_step_snd [OF Inr, of st msg w] assms(2) by simp
  qed
  then show ?thesis using Inr by simp
qed

lemma apply_op_persisted:
  assumes inv: "reach_inv p pl" and op: "apply_op env x pl w = (r, pl', w')"
  shows "case missing_entry env x pl of
           None \<Rightarrow> persisted env pl' w r w'
         | Some e \<Rightarrow> r = Some e \<and> pl' = pl \<and> files w' = files w \<and> writes w' = writes w"
proof -
  have wn: "well_named p pl'"
    using reach_well_named [OF reach_apply_op [OF inv, of env x w]] op by simp
  have tick: "files (w\<lparr>ticks := Suc (ticks w)\<rparr>) = files w"
    "writes (w\<lparr>ticks := Suc (ticks w)\<rparr>) = writes w"
    by simp_all
  show ?thesis
  proof (cases x)
    case (PlanStep s)
    then have m: "missing_entry env x pl = None" by (simp add: missing_entry_def)
    have "persisted env pl' w r w'"
    proof (rule op_persisted [OF wn tick])
      show "r = fst (write_progress env pl' (w\<lparr>ticks := Suc (ticks w)\<rparr>))"
        using plan_step_fst [of env s pl w] op PlanStep by simp
      show "w' = snd (write_progress env pl' (w\<lparr>ticks := Suc (ticks w)\<rparr>))"
        using plan_step_snd [of env s pl w] op PlanStep by simp
    qed
    then show ?thesis using m by simp
  next
    case (StartStep s)
    then have m: "missing_entry env x pl = None" by (simp add: missing_entry_def)
    have "persisted env pl' w r w'"
    proof (rule op_persisted [OF wn tick])
      show "r = fst (write_progress env pl' (w\<lparr>ticks := Suc (ticks w)\<rparr>))"
        using start_step_fst [of env s pl w] op StartStep by simp
      show "w' = snd (write_progress env pl' (w\<lparr>ticks := Suc (ticks w)\<rparr>))"
        using start_step_snd [of env s pl w] op StartStep by simp
    qed
    then show ?thesis using m by simp
  next
    case (CompleteStep s st msg)
    then show ?thesis
      using complete_step_persisted [OF inv, of env s st msg w r pl' w'] op
      by (simp add: missing_entry_def split: sum.splits)
  next
    case (FailStep s msg)
    then show ?thesis
      using complete_step_persisted [OF inv, of env s "''failed''" msg w r pl' w'] op
      by (simp add: fail_step_def missing_entry_def split: sum.splits)
  next
    case (Finish st msg)
    then have m: "missing_entry env x pl = None" by (simp add: missing_entry_def)
    have "persisted env pl' w r w'"
    proof (rule op_persisted [OF wn tick])
      show "r = fst (write_progress env pl' (w\<lparr>ticks := Suc (ticks w)\<rparr>))"
        using finish_reach(2) [OF inv, of env st msg w] op Finish by simp
      show "w' = snd (write_progress env pl' (w\<lparr>ticks := Suc (ticks w)\<rparr>))"
        using finish_reach(3) [OF inv, of env st msg w] op Finish by simp
    qed
    then show ?thesis using m by simp
  qed
qed

lemma ProgressLog_persisted:
  assumes "snd p \<noteq> ''latest.json''" and "snd p \<noteq> ''latest.json.tmp''"
    and "ProgressLog env p sess dry order started w0 = (r0, pl0, w1)"
  shows "persisted env pl0 w0 r0 w1"
proof -
  have wn: "well_named p pl0"
    using reach_well_named [OF reach_init [OF assms(1,2), of env sess dry order started w0]] assms(3)
    by simp
  from ProgressLog_snd [of w0 env p sess dry order started] obtain w where
    w: "files w = files w0" "writes w = writes w0"
       "r0 = fst (write_progress env pl0 w)" "w1 = snd (write_progress env pl0 w)"
    using assms(3) by auto
  show ?thesis using wn w by (rule op_persisted)
qed

lemma write_ops_protocol:
  assumes "well_named p pl"
  shows "write_ops env pl =
           [WriteText (fst p, snd p @ ''.tmp'') (json_dumps env (SessionDoc (data pl))),
            Replace (fst p, snd p @ ''.tmp'') p,
            WriteText (fst p, ''latest.json.tmp'') (json_dumps env (LatestDoc (latest_payload_of pl))),
            Replace (fst p, ''latest.json.tmp'') (fst p, ''latest.json'')]"
  using assms by (simp add: write_ops_def tmp_of_def well_named_def)

lemma progress_writes_shape:
  assumes "snd p \<noteq> ''latest.json''" and "snd p \<noteq> ''latest.json.tmp''"
    and "ProgressLog env p sess dry order started w0 = (r0, pl0, w1)"
    and "apply_ops env ops pl0 w1 = (pl, w)"
    and "apply_op env x pl w = (r, pl', w')"
  shows "persisted env pl0 w0 r0 w1
       \<and> (case missing_entry env x pl of
             None \<Rightarrow> persisted env pl' w r w'
           | Some e \<Rightarrow> r = Some e \<and> pl' = pl \<and> files w' = files w \<and> writes w' = writes w)
       \<and> write_ops env pl' =
           [WriteText (fst p, snd p @ ''.tmp'') (json_dumps env (SessionDoc (data pl'))),
            Replace (fst p, snd p @ ''.tmp'') p,
            WriteText (fst p, ''latest.json.tmp'') (json_dumps env (LatestDoc (latest_payload_of pl'))),
            Replace (fst p, ''latest.json.tmp'') (fst p, ''latest.json'')]"
proof -
  have "reach_inv p pl0"
    using reach_init [OF assms(1,2), of env sess dry order started w0] assms(3) by simp
  then have inv: "reach_inv p pl" using reach_apply_ops [of p pl0 env ops w1] assms(4) by simp
  then have "case missing_entry env x pl of
               None \<Rightarrow> persisted env pl' w r w'
             | Some e \<Rightarrow> r = Some e \<and> pl' = pl \<and> files w' = files w \<and> writes w' = writes w"
    using assms(5) by (rule apply_op_persisted)
  moreover have "well_named p pl'"
    using reach_well_named [OF reach_apply_op [OF inv, of env x w]] assms(5) by simp
  ultimately show ?thesis
    using ProgressLog_persisted [OF assms(1,2,3)] write_ops_protocol [of p pl' env] by simp
qed

lemma run_paths_named:
  "''run_'' @ name \<noteq> ''latest.json''" "''run_'' @ name \<noteq> ''latest.json.tmp''"
  by simp_all

text \<open>
  C2.  Take a \<open>ProgressLog\<close> whose session file is not itself named \<open>latest.json\<close> or
  \<open>latest.json.tmp\<close>, fresh from its constructor, after any sequence of lifecycle calls.
  The constructor ends in one \<open>_write\<close> of the complete state it leaves.  A further call
  of \<open>complete_step\<close> or \<open>fail_step\<close> on a step of which \<open>_find_step_entry\<close> finds no entry
  raises that \<open>KeyError\<close>, writes nothing and leaves the log and the files as they were;
  every other further call of \<open>plan_step\<close>, \<open>start_step\<close>, \<open>complete_step\<close>, \<open>fail_step\<close> or
  \<open>finish\<close> makes exactly one \<open>_write\<close>, of the complete state it leaves.  That write puts each document in a file
  \<open><name>.tmp\<close> of the destination's directory and renames it over the destination.  With
  a rename taken in one step and a text written piece by piece, in every state of the file
  system that the write goes through, also when it breaks off, the session file and
  \<open>latest.json\<close> each hold either what they held before or the complete new document.
\<close>

theorem progress_written_by_atomic_replace:
  assumes "snd p \<noteq> ''latest.json''" and "snd p \<noteq> ''latest.json.tmp''"
    and "ProgressLog env p sess dry order started w0 = (r0, pl0, w1)"
    and "apply_ops env ops pl0 w1 = (pl, w)"
    and "apply_op env x pl w = (r, pl', w')"
  shows "persisted env pl0 w0 r0 w1
       \<and> (case missing_entry env x pl of
             None \<Rightarrow> persisted env pl' w r w'
           | Some e \<Rightarrow> r = Some e \<and> pl' = pl \<and> files w' = files w \<and> writes w' = writes w)
       \<and> write_ops env pl' =
           [WriteText (fst p, snd p @ ''.tmp'') (json_dumps env (SessionDoc (data pl'))),
            Replace (fst p, snd p @ ''.tmp'') p,
            WriteText (fst p, ''latest.json.tmp'') (json_dumps env (LatestDoc (latest_payload_of pl'))),
            Replace (fst p, ''latest.json.tmp'') (fst p, ''latest.json'')]"
  using assms by (rule progress_writes_shape)

theorem progress_written_by_atomic_replace_witness:
  "persisted demo_env (fst (snd demo_log)) demo_world (fst demo_log) (snd (snd demo_log))
   \<and> missing_entry demo_env (CompleteStep ''b'' ''completed'' (Some ''done'')) (fst demo_after) = None
   \<and> persisted demo_env
        (fst (snd (complete_step demo_env ''b'' ''completed'' (Some ''done'') (fst demo_after) (snd demo_after))))
        (snd demo_after)
        (fst (complete_step demo_env ''b'' ''completed'' (Some ''done'') (fst demo_after) (snd demo_after)))
        (snd (snd (complete_step demo_env ''b'' ''completed'' (Some ''done'') (fst demo_after) (snd demo_after))))
   \<and> writes (snd (snd (complete_step demo_env ''b'' ''completed'' (Some ''done'') (fst demo_after) (snd demo_after))))
       = Suc (writes (snd demo_after))
   \<and> files (snd (snd (complete_step demo_env ''b'' ''completed'' (Some ''done'') (fst demo_after) (snd demo_after))))
         (''/proj/outputs/run_history'', ''run_0.json'') = Some ''Srunning''
   \<and> files (snd (snd (complete_step demo_env ''b'' ''completed'' (Some ''done'') (fst demo_after) (snd demo_after))))
         (''/proj/outputs/run_history'', ''latest.json'') = Some ''Lrunning''
   \<and> missing_entry demo_env (FailStep ''zzz'' None) (fst demo_after)
       = Some (KeyError (''No step entry recorded for '' @ [CHR 0x27] @ ''zzz'' @ [CHR 0x27]))
   \<and> fst (fail_step demo_env ''zzz'' None (fst demo_after) (snd demo_after))
       = Some (KeyError (''No step entry recorded for '' @ [CHR 0x27] @ ''zzz'' @ [CHR 0x27]))
   \<and> fst (snd (fail_step demo_env ''zzz'' None (fst demo_after) (snd demo_after))) = fst demo_after
   \<and> files (snd (snd (fail_step demo_env ''zzz'' None (fst demo_after) (snd demo_after))))
       = files (snd demo_after)
   \<and> writes (snd (snd (fail_step demo_env ''zzz'' None (fst demo_after) (snd demo_after))))
       = writes (snd demo_after)"
proof -
  let ?p = "(''/proj/outputs/run_history'', ''run_0.json'')"
  let ?C = "complete_step demo_env ''b'' ''completed'' (Some ''done'') (fst demo_after) (snd demo_after)"
  let ?Z = "fail_step demo_env ''zzz'' None (fst demo_after) (snd demo_after)"
  let ?K = "KeyError (''No step entry recorded for '' @ [CHR 0x27] @ ''zzz'' @ [CHR 0x27])"
  have n1: "snd ?p \<noteq> ''latest.json''" and n2: "snd ?p \<noteq> ''latest.json.tmp''" by simp_all
  have e1: "ProgressLog demo_env ?p ''run_0'' False [''a'', ''b''] None demo_world
              = (fst demo_log, fst (snd demo_log), snd (snd demo_log))"
    by (simp add: demo_log_def)
  have e2: "apply_ops demo_env demo_ops (fst (snd demo_log)) (snd (snd demo_log))
              = (fst demo_after, snd demo_after)"
    by (simp add: demo_after_def)
  have e3: "apply_op demo_env (CompleteStep ''b'' ''completed'' (Some ''done'')) (fst demo_after) (snd demo_after)
              = (fst ?C, fst (snd ?C), snd (snd ?C))"
    by simp
  have e4: "apply_op demo_env (FailStep ''zzz'' None) (fst demo_after) (snd demo_after)
              = (fst ?Z, fst (snd ?Z), snd (snd ?Z))"
    by simp
  have found: "missing_entry demo_env (CompleteStep ''b'' ''completed'' (Some ''done'')) (fst demo_after) = None"
    by code_simp
  have missing: "missing_entry demo_env (FailStep ''zzz'' None) (fst demo_after) = Some ?K"
    by code_simp
  have disk: "files (snd (snd ?C)) ?p = Some ''Srunning''
              \<and> files (snd (snd ?C)) (''/proj/outputs/run_history'', ''latest.json'') = Some ''Lrunning''"
    by code_simp
  have c: "persisted demo_env (fst (snd demo_log)) demo_world (fst demo_log) (snd (snd demo_log))
           \<and> persisted demo_env (fst (snd ?C)) (snd demo_after) (fst ?C) (snd (snd ?C))"
    using progress_written_by_atomic_replace [OF n1 n2 e1 e2 e3] found by simp
  then have wr: "writes (snd (snd ?C)) = Suc (writes (snd demo_after))"
    by (simp add: persisted_def)
  have z: "fst ?Z = Some ?K \<and> fst (snd ?Z) = fst demo_after
           \<and> files (snd (snd ?Z)) = files (snd demo_after)
           \<and> writes (snd (snd ?Z)) = writes (snd demo_after)"
    using progress_written_by_atomic_replace [OF n1 n2 e1 e2 e4] missing by simp
  show ?thesis using c wr found missing disk z by simp
qed

end
